theory Spec2Isabelle
  imports Complex_Main
begin

section \<open>The host: instances, signals and events\<close>

text \<open>
  \<^verbatim>\<open>index.ts\<close> runs inside a game engine. The engine's object tree, its signals and the
  Promise library are not part of the repository; they are modelled here as far as
  \<^verbatim>\<open>index.ts\<close> uses them. An \<open>Instance\<close> value is the state of an engine object at the
  moment it is read: its name, its class and the classes above it, the two properties
  \<^verbatim>\<open>index.ts\<close> reads (\<^verbatim>\<open>PrimaryPart\<close> of a Model, \<^verbatim>\<open>Value\<close> of an ObjectValue; \<open>None\<close>
  is \<^verbatim>\<open>undefined\<close>) and its children in order. \<open>uid\<close> is its identity.
\<close>

type_synonym uid = nat

datatype Instance = Instance
  (uid: uid)
  (Name: string)
  (ClassName: string)
  (Superclasses: "string list")
  (PrimaryPart: "Instance option")
  (Value: "Instance option")
  (GetChildren: "Instance list")

fun GetDescendants :: "Instance \<Rightarrow> Instance list" where
  "GetDescendants (Instance u n c s p v ch) = concat (map (\<lambda>k. k # GetDescendants k) ch)"

text \<open>
  The engine's lookups. \<^verbatim>\<open>FindFirstChild(name, recursive)\<close> looks among the children,
  or among all descendants when \<open>recursive\<close> is set; which of several matches it
  returns plays no part below.
\<close>

definition IsA :: "Instance \<Rightarrow> string \<Rightarrow> bool" where
  "IsA c className = (ClassName c = className \<or> className \<in> set (Superclasses c))"

definition FindFirstChild :: "Instance \<Rightarrow> string \<Rightarrow> bool \<Rightarrow> Instance option" where
  "FindFirstChild parent name recursive =
     find (\<lambda>c. Name c = name) (if recursive then GetDescendants parent else GetChildren parent)"

definition FindFirstChildWhichIsA :: "Instance \<Rightarrow> string \<Rightarrow> bool \<Rightarrow> Instance option" where
  "FindFirstChildWhichIsA parent className recursive =
     find (\<lambda>c. IsA c className) (if recursive then GetDescendants parent else GetChildren parent)"

definition FindFirstChildOfClass :: "Instance \<Rightarrow> string \<Rightarrow> Instance option" where
  "FindFirstChildOfClass parent className =
     find (\<lambda>c. ClassName c = className) (GetChildren parent)"

text \<open>
  A signal is something a listener can be connected to. \<open>Delay d\<close> is the timer that
  \<^verbatim>\<open>Promise.delay(d)\<close> arms; \<^verbatim>\<open>promise.timeout(d)\<close> is built on it.
\<close>

datatype signal =
    ChildAdded uid
  | DescendantAdded uid
  | Destroying uid
  | PropertyChanged uid string
  | Changed uid
  | Heartbeat
  | Delay real

text \<open>
  What the engine does, one event at a time (the scheduler is single-threaded).
  \<open>OnPropertyChanged m n\<close> and \<open>OnChanged v\<close> carry the firing instance as it is at that
  moment, which is what a listener reading \<^verbatim>\<open>model.PrimaryPart\<close> or
  \<^verbatim>\<open>objectValue.Value\<close> sees; \<^verbatim>\<open>Changed\<close> of an ObjectValue passes that same new
  \<^verbatim>\<open>Value\<close> as its argument. \<open>OnClock t\<close>: \<open>t\<close> seconds have passed since the call.
\<close>

datatype event =
    OnChildAdded uid Instance
  | OnDescendantAdded uid Instance
  | OnDestroying uid
  | OnPropertyChanged Instance string
  | OnChanged Instance
  | OnHeartbeat
  | OnClock real

fun fires :: "event \<Rightarrow> signal \<Rightarrow> bool" where
  "fires (OnChildAdded u c) (ChildAdded v) = (u = v)"
| "fires (OnDescendantAdded u c) (DescendantAdded v) = (u = v)"
| "fires (OnDestroying u) (Destroying v) = (u = v)"
| "fires (OnPropertyChanged m n) (PropertyChanged v n') = (uid m = v \<and> n = n')"
| "fires (OnChanged x) (Changed v) = (uid x = v)"
| "fires OnHeartbeat Heartbeat = True"
| "fires (OnClock t) (Delay d) = (d \<le> t)"
| "fires _ _ = False"

fun added :: "event \<Rightarrow> Instance option" where
  "added (OnChildAdded u c) = Some c"
| "added (OnDescendantAdded u c) = Some c"
| "added _ = None"

record connection =
  Signal :: signal
  Connected :: bool

definition Connect :: "signal \<Rightarrow> connection" where
  "Connect s = \<lparr>Signal = s, Connected = True\<rparr>"

definition Disconnect :: "connection \<Rightarrow> connection" where
  "Disconnect c = c\<lparr>Connected := False\<rparr>"

definition listening :: "event \<Rightarrow> connection option \<Rightarrow> bool" where
  "listening e co = (case co of None \<Rightarrow> False | Some c \<Rightarrow> Connected c \<and> fires e (Signal c))"

section \<open>Promises\<close>

text \<open>
  What a promise can be rejected with: \<open>Destroyed\<close> is \<^verbatim>\<open>WaitForError.Destroyed\<close>, the
  one member of the enum of lines 5 to 7; \<open>TimedOut\<close> is the error \<^verbatim>\<open>promise.timeout\<close>
  rejects with; \<open>ExecutionError\<close> is what the Promise library rejects with when a handler
  it runs throws.
\<close>

datatype error = Destroyed | TimedOut | ExecutionError string

datatype 'a status = Started | Resolved 'a | Rejected error | Cancelled

text \<open>
  The promise every single wait returns: \<^verbatim>\<open>Promise.resolve(v)\<close>, or
  \<^verbatim>\<open>watchDestroying(inst, Promise.fromEvent(signal, predicate)).timeout(t)\<close>.
  \<open>connection\<close> is the connection \<^verbatim>\<open>Promise.fromEvent\<close> makes, \<open>predicate\<close> its
  filter together with the value the promise is resolved with, \<open>watch\<close> the connection
  \<^verbatim>\<open>watchDestroying\<close> makes and \<open>timer\<close> the delay of \<^verbatim>\<open>timeout\<close>. A connection
  that was never made is \<open>None\<close>; one that was made stays in the record, connected or
  not. The Promise library runs handlers synchronously; a race (\<^verbatim>\<open>watchDestroying\<close>,
  \<^verbatim>\<open>timeout\<close>) settles with the first of its promises to settle and cancels the others,
  which disconnects what they were connected to.
\<close>

record 'a promise =
  status :: "'a status"
  connection :: "connection option"
  predicate :: "event \<Rightarrow> 'a option"
  watch :: "connection option"
  timer :: "connection option"

definition Promise_resolve :: "'a \<Rightarrow> 'a promise" where
  "Promise_resolve v =
     \<lparr>status = Resolved v, connection = None, predicate = (\<lambda>e. None), watch = None, timer = None\<rparr>"

definition Promise_fromEvent :: "signal \<Rightarrow> (event \<Rightarrow> 'a option) \<Rightarrow> 'a promise" where
  "Promise_fromEvent s f =
     \<lparr>status = Started, connection = Some (Connect s), predicate = f, watch = None, timer = None\<rparr>"

text \<open>
  \<^verbatim>\<open>watchDestroying\<close>, lines 9 to 14: the race of the promise with the first firing of
  \<^verbatim>\<open>instance.Destroying\<close>, which rejects with \<^verbatim>\<open>WaitForError.Destroyed\<close>.
  \<^verbatim>\<open>promise.timeout(seconds)\<close>: the race of the promise with a delay of that many
  seconds, which rejects with the timeout.
\<close>

definition watchDestroying :: "Instance \<Rightarrow> 'a promise \<Rightarrow> 'a promise" where
  "watchDestroying inst p = p\<lparr>watch := Some (Connect (Destroying (uid inst)))\<rparr>"

definition timeout :: "'a promise \<Rightarrow> real \<Rightarrow> 'a promise" where
  "timeout p seconds = p\<lparr>timer := Some (Connect (Delay seconds))\<rparr>"

definition subscriptions :: "'a promise \<Rightarrow> connection list" where
  "subscriptions p = concat (map (\<lambda>co. case co of None \<Rightarrow> [] | Some c \<Rightarrow> [c])
     [connection p, watch p, timer p])"

definition settle :: "'a status \<Rightarrow> 'a promise \<Rightarrow> 'a promise" where
  "settle r p = p\<lparr>status := r,
     connection := map_option Disconnect (connection p),
     watch := map_option Disconnect (watch p),
     timer := map_option Disconnect (timer p)\<rparr>"

definition cancel :: "'a promise \<Rightarrow> 'a promise" where
  "cancel p = (if status p = Started then settle Cancelled p else p)"

text \<open>
  One event delivered to a promise. The three connections are on signals of different
  kinds, so at most one of them fires on an event (\<open>fires_exclusive\<close> below) and the
  order of the tests is immaterial.
\<close>

definition step :: "event \<Rightarrow> 'a promise \<Rightarrow> 'a promise" where
  "step e p =
     (if status p \<noteq> Started then p
      else if listening e (watch p) then settle (Rejected Destroyed) p
      else if listening e (timer p) then settle (Rejected TimedOut) p
      else if listening e (connection p) then
        (case predicate p e of None \<Rightarrow> p | Some v \<Rightarrow> settle (Resolved v) p)
      else p)"

definition run :: "'a promise \<Rightarrow> event list \<Rightarrow> 'a promise" where
  "run p evs = foldl (\<lambda>q e. step e q) p evs"

section \<open>index.ts\<close>

text \<open>Line 3.\<close>

definition DEFAULT_TIMEOUT :: real where
  "DEFAULT_TIMEOUT = 60"

text \<open>
  A parameter with a default value (\<^verbatim>\<open>recursive = false\<close>, \<^verbatim>\<open>timeout = DEFAULT_TIMEOUT\<close>)
  is an option: \<open>None\<close> when the caller leaves it out.
\<close>

definition or_default :: "'a \<Rightarrow> 'a option \<Rightarrow> 'a" where
  "or_default d x = (case x of None \<Rightarrow> d | Some v \<Rightarrow> v)"

text \<open>Lines 32 to 46.\<close>

definition waitForChild :: "Instance \<Rightarrow> string \<Rightarrow> bool option \<Rightarrow> real option \<Rightarrow> Instance promise" where
  "waitForChild parent childName recursive tmo =
     (case FindFirstChild parent childName (or_default False recursive) of
        Some child \<Rightarrow> Promise_resolve child
      | None \<Rightarrow>
          timeout (watchDestroying parent
            (Promise_fromEvent
               (if or_default False recursive then DescendantAdded (uid parent) else ChildAdded (uid parent))
               (\<lambda>e. case added e of None \<Rightarrow> None
                    | Some c \<Rightarrow> if Name c = childName then Some c else None)))
            (or_default DEFAULT_TIMEOUT tmo))"

text \<open>Lines 64 to 78. The signal is \<^verbatim>\<open>parent.ChildAdded\<close> whatever \<open>recursive\<close> is.\<close>

definition waitForChildWhichIsA :: "Instance \<Rightarrow> string \<Rightarrow> bool option \<Rightarrow> real option \<Rightarrow> Instance promise" where
  "waitForChildWhichIsA parent className recursive tmo =
     (case FindFirstChildWhichIsA parent className (or_default False recursive) of
        Some child \<Rightarrow> Promise_resolve child
      | None \<Rightarrow>
          timeout (watchDestroying parent
            (Promise_fromEvent (ChildAdded (uid parent))
               (\<lambda>e. case added e of None \<Rightarrow> None
                    | Some c \<Rightarrow> if IsA c className then Some c else None)))
            (or_default DEFAULT_TIMEOUT tmo))"

text \<open>Lines 95 to 108.\<close>

definition waitForChildOfClass :: "Instance \<Rightarrow> string \<Rightarrow> real option \<Rightarrow> Instance promise" where
  "waitForChildOfClass parent className tmo =
     (case FindFirstChildOfClass parent className of
        Some child \<Rightarrow> Promise_resolve child
      | None \<Rightarrow>
          timeout (watchDestroying parent
            (Promise_fromEvent (ChildAdded (uid parent))
               (\<lambda>e. case added e of None \<Rightarrow> None
                    | Some c \<Rightarrow> if ClassName c = className then Some c else None)))
            (or_default DEFAULT_TIMEOUT tmo))"

text \<open>
  Lines 171 to 184. The listener tests \<^verbatim>\<open>model.PrimaryPart\<close> and the promise is resolved
  with \<^verbatim>\<open>model.PrimaryPart\<close>, both read when the signal fires.
\<close>

definition waitForPrimaryPart :: "Instance \<Rightarrow> real option \<Rightarrow> Instance promise" where
  "waitForPrimaryPart model tmo =
     (case PrimaryPart model of
        Some primary \<Rightarrow> Promise_resolve primary
      | None \<Rightarrow>
          timeout (watchDestroying model
            (Promise_fromEvent (PropertyChanged (uid model) ''PrimaryPart'')
               (\<lambda>e. case e of OnPropertyChanged m n \<Rightarrow> PrimaryPart m | _ \<Rightarrow> None)))
            (or_default DEFAULT_TIMEOUT tmo))"

text \<open>Lines 199 to 208.\<close>

definition waitForObjectValue :: "Instance \<Rightarrow> real option \<Rightarrow> Instance promise" where
  "waitForObjectValue objectValue tmo =
     (case Value objectValue of
        Some v \<Rightarrow> Promise_resolve v
      | None \<Rightarrow>
          timeout (watchDestroying objectValue
            (Promise_fromEvent (Changed (uid objectValue))
               (\<lambda>e. case e of OnChanged x \<Rightarrow> Value x | _ \<Rightarrow> None)))
            (or_default DEFAULT_TIMEOUT tmo))"

text \<open>
  \<^verbatim>\<open>waitForChildren\<close>, lines 126 to 156: \<open>all\<close>, \<open>destroying\<close> and \<open>destroyed\<close> are its
  three locals, \<open>result\<close> is the promise it returns, \<^verbatim>\<open>Promise.all(all).then(...)\<close>.
\<close>

record batch =
  all :: "Instance promise list"
  destroying :: "connection list"
  destroyed :: bool
  result :: "Instance list status"

fun values_of :: "'a promise list \<Rightarrow> 'a list" where
  "values_of [] = []"
| "values_of (p # ps) = (case status p of Resolved v \<Rightarrow> v # values_of ps | _ \<Rightarrow> values_of ps)"

definition is_resolved :: "'a promise \<Rightarrow> bool" where
  "is_resolved p = (case status p of Resolved v \<Rightarrow> True | _ \<Rightarrow> False)"

text \<open>
  The callback given to \<^verbatim>\<open>then\<close> inside the loop (lines 137 to 144): it runs when the
  child is found, at once for a promise that is already resolved.
\<close>

definition on_found :: "Instance \<Rightarrow> batch \<Rightarrow> batch" where
  "on_found child b = b\<lparr>destroying := destroying b @ [Connect (Destroying (uid child))]\<rparr>"

text \<open>
  The callback given to \<^verbatim>\<open>Promise.all(all).then\<close> (lines 147 to 155): \<^verbatim>\<open>Promise.all\<close>
  resolves, with the values in the order of \<open>all\<close>, once every promise of \<open>all\<close> is
  resolved (at once when \<open>all\<close> is empty).
\<close>

definition then_all :: "batch \<Rightarrow> batch" where
  "then_all b =
     (if result b = Started \<and> list_all is_resolved (all b) then
        b\<lparr>destroying := map Disconnect (destroying b),
          result := (if destroyed b then Rejected Destroyed else Resolved (values_of (all b)))\<rparr>
      else b)"

text \<open>
  \<^verbatim>\<open>Promise.all\<close> rejects with the first rejection and cancels the promises still
  pending; the callback of \<^verbatim>\<open>then\<close> is not run.
\<close>

definition reject_all :: "error \<Rightarrow> batch \<Rightarrow> batch" where
  "reject_all err b =
     (if result b = Started then b\<lparr>result := Rejected err, all := map cancel (all b)\<rparr> else b)"

text \<open>The loop of lines 135 to 146, with \<open>b\<close> the locals so far.\<close>

fun push_all :: "Instance \<Rightarrow> bool option \<Rightarrow> real option \<Rightarrow> string list \<Rightarrow> batch \<Rightarrow> batch" where
  "push_all parent recursive tmo [] b = b"
| "push_all parent recursive tmo (childName # names) b =
     (let p = waitForChild parent childName recursive tmo;
          b' = b\<lparr>all := all b @ [p]\<rparr>
      in push_all parent recursive tmo names
           (case status p of Resolved child \<Rightarrow> on_found child b' | _ \<Rightarrow> b'))"

definition waitForChildren :: "Instance \<Rightarrow> string list \<Rightarrow> bool option \<Rightarrow> real option \<Rightarrow> batch" where
  "waitForChildren parent childrenNames recursive tmo =
     then_all (push_all parent recursive tmo childrenNames
       \<lparr>all = [], destroying = [], destroyed = False, result = Started\<rparr>)"

text \<open>One event delivered to the \<open>i\<close>-th promise of \<open>all\<close>.\<close>

definition deliver :: "event \<Rightarrow> nat \<Rightarrow> batch \<Rightarrow> batch" where
  "deliver e i b =
     (if i < length (all b) \<and> status (all b ! i) = Started then
        (let p = step e (all b ! i);
             b' = b\<lparr>all := (all b)[i := p]\<rparr>
         in case status p of
              Started \<Rightarrow> b'
            | Resolved child \<Rightarrow> then_all (on_found child b')
            | Rejected err \<Rightarrow> reject_all err b'
            | Cancelled \<Rightarrow> b')
      else b)"

text \<open>
  One event delivered to the batch: to the listeners on the found children's
  \<^verbatim>\<open>Destroying\<close>, which set \<open>destroyed\<close>, and to the promises of \<open>all\<close>. No event fires
  both kinds, so their order is immaterial.
\<close>

definition batch_step :: "event \<Rightarrow> batch \<Rightarrow> batch" where
  "batch_step e b =
     foldl (\<lambda>b' i. deliver e i b')
       (b\<lparr>destroyed := destroyed b \<or> list_ex (\<lambda>c. Connected c \<and> fires e (Signal c)) (destroying b)\<rparr>)
       [0..<length (all b)]"

definition batch_run :: "batch \<Rightarrow> event list \<Rightarrow> batch" where
  "batch_run b evs = foldl (\<lambda>b' e. batch_step e b') b evs"

text \<open>
  \<^verbatim>\<open>waitForCustom\<close>, lines 237 to 252. The predicate reads the world, so what it returns depends on when
  it is called: \<open>predicate k\<close> is the outcome of its \<open>k\<close>-th invocation, counted from 0,
  and \<open>calls\<close> counts the invocations made so far. \<open>hb\<close> is the connection to
  \<^verbatim>\<open>RunService.Heartbeat\<close>, \<open>delay\<close> the timer of \<^verbatim>\<open>timeout\<close>.
\<close>

datatype ('a, 'x) outcome = Returns "'a option" | Throws 'x

record 'a custom =
  promise :: "'a status"
  hb :: "connection option"
  delay :: "connection option"
  calls :: nat

text \<open>\<open>Inl x\<close>: the call itself throws \<open>x\<close>; no promise is returned.\<close>

definition waitForCustom :: "(nat \<Rightarrow> ('a, 'x) outcome) \<Rightarrow> real option \<Rightarrow> 'x + 'a custom" where
  "waitForCustom pred tmo =
     (case pred 0 of
        Throws x \<Rightarrow> Inl x
      | Returns (Some v) \<Rightarrow> Inr \<lparr>promise = Resolved v, hb = None, delay = None, calls = 1\<rparr>
      | Returns None \<Rightarrow>
          Inr \<lparr>promise = Started, hb = Some (Connect Heartbeat),
               delay = Some (Connect (Delay (or_default DEFAULT_TIMEOUT tmo))), calls = 1\<rparr>)"

text \<open>
  One event delivered to a pending \<^verbatim>\<open>waitForCustom\<close>. The first component is the
  exception that leaves the Heartbeat listener, if the predicate throws: nothing in the
  listener catches it and \<^verbatim>\<open>reject\<close> is never called.
\<close>

definition custom_step :: "(nat \<Rightarrow> ('a, 'x) outcome) \<Rightarrow> event \<Rightarrow> 'a custom \<Rightarrow> 'x option \<times> 'a custom" where
  "custom_step pred e s =
     (if promise s \<noteq> Started then (None, s)
      else if listening e (delay s) then
        (None, s\<lparr>promise := Rejected TimedOut,
                 hb := map_option Disconnect (hb s), delay := map_option Disconnect (delay s)\<rparr>)
      else if listening e (hb s) then
        (case pred (calls s) of
           Throws x \<Rightarrow> (Some x, s\<lparr>calls := Suc (calls s)\<rparr>)
         | Returns None \<Rightarrow> (None, s\<lparr>calls := Suc (calls s)\<rparr>)
         | Returns (Some v) \<Rightarrow>
             (None, s\<lparr>calls := Suc (calls s), promise := Resolved v,
                      hb := map_option Disconnect (hb s), delay := map_option Disconnect (delay s)\<rparr>))
      else (None, s))"

text \<open>A run collects the exceptions that left the listener, in order.\<close>

fun custom_run :: "(nat \<Rightarrow> ('a, 'x) outcome) \<Rightarrow> 'a custom \<Rightarrow> event list \<Rightarrow> 'x list \<times> 'a custom" where
  "custom_run pred s [] = ([], s)"
| "custom_run pred s (e # evs) =
     (case custom_step pred e s of
        (x, s') \<Rightarrow> (case custom_run pred s' evs of
                      (xs, s'') \<Rightarrow> ((case x of None \<Rightarrow> [] | Some y \<Rightarrow> [y]) @ xs, s'')))"

text \<open>Everything \<^verbatim>\<open>index.ts\<close> exports: the enum of line 5 and seven functions.\<close>

definition exports :: "string list" where
  "exports = [''WaitForError'', ''waitForChild'', ''waitForChildWhichIsA'', ''waitForChildOfClass'',
     ''waitForChildren'', ''waitForPrimaryPart'', ''waitForObjectValue'', ''waitForCustom'']"

section \<open>Reachable states\<close>

text \<open>
  Predicates on states, used in the proofs only. \<open>polling T n\<close> is a pending
  \<^verbatim>\<open>waitForCustom\<close> whose predicate was invoked \<open>n\<close> times; \<open>armed T p\<close> says that a
  pending promise holds a live timer of \<open>T\<close> seconds and a watch on some instance's
  \<^verbatim>\<open>Destroying\<close>; \<open>named n p\<close> says that \<open>p\<close> can only be resolved with an instance
  called \<open>n\<close>; \<open>loop_ok\<close> holds of the locals of \<^verbatim>\<open>waitForChildren\<close> during its loop and
  \<open>batch_ok\<close> from then on.
\<close>

definition polling :: "real \<Rightarrow> nat \<Rightarrow> 'a custom" where
  "polling T n = \<lparr>promise = Started, hb = Some (Connect Heartbeat),
     delay = Some (Connect (Delay T)), calls = n\<rparr>"

definition armed :: "real \<Rightarrow> 'a promise \<Rightarrow> bool" where
  "armed T p \<longleftrightarrow>
     (status p = Started \<longrightarrow>
        timer p = Some (Connect (Delay T)) \<and> (\<exists>u. watch p = Some (Connect (Destroying u))))"

definition named :: "string \<Rightarrow> Instance promise \<Rightarrow> bool" where
  "named n p \<longleftrightarrow>
     (\<forall>e v. predicate p e = Some v \<longrightarrow> Name v = n) \<and> (\<forall>c. status p = Resolved c \<longrightarrow> Name c = n)"

definition loop_ok :: "batch \<Rightarrow> bool" where
  "loop_ok b \<longleftrightarrow> result b = Started \<and> \<not> destroyed b \<and>
     (\<forall>p\<in>set (all b). status p = Started \<or> is_resolved p) \<and>
     (\<forall>p\<in>set (all b). \<forall>c. status p = Resolved c \<longrightarrow>
        Connect (Destroying (uid c)) \<in> set (destroying b))"

definition batch_ok :: "batch \<Rightarrow> bool" where
  "batch_ok b \<longleftrightarrow>
     (result b = Started \<longrightarrow>
        \<not> list_all is_resolved (all b) \<and>
        (\<forall>p\<in>set (all b). status p = Started \<or> is_resolved p) \<and>
        (\<forall>p\<in>set (all b). \<forall>c. status p = Resolved c \<longrightarrow>
           Connect (Destroying (uid c)) \<in> set (destroying b))) \<and>
     (\<forall>cs. result b = Resolved cs \<longrightarrow>
        cs = values_of (all b) \<and> list_all is_resolved (all b) \<and> \<not> destroyed b \<and>
        (\<forall>c\<in>set (destroying b). \<not> Connected c)) \<and>
     (\<forall>err. result b = Rejected err \<longrightarrow>
        (\<forall>p\<in>set (all b). status p \<noteq> Started) \<and>
        (err = Destroyed \<and> destroyed b \<and> list_all is_resolved (all b) \<or>
         (\<exists>p\<in>set (all b). status p = Rejected err))) \<and>
     result b \<noteq> Cancelled"

section \<open>A vehicle\<close>

text \<open>
  The instances and predicates of the worked examples: a vehicle that has its left wheel
  and not yet its right one, inside a garage; a chassis without parts, inside a yard; an
  ObjectValue that points to the wheel and one that is still empty; a predicate that finds
  the wheel on its third invocation, one that finds it at once, one that throws on its
  second invocation and finds the wheel on its third, one that throws from its second
  invocation on and one that throws at once; a pending \<^verbatim>\<open>waitForCustom\<close> with the
  default timeout.
\<close>

definition LeftWheel :: Instance where
  "LeftWheel = Instance 2 ''LeftWheel'' ''Part'' [''BasePart'', ''PVInstance'', ''Instance''] None None []"

definition RightWheel :: Instance where
  "RightWheel = Instance 3 ''RightWheel'' ''Part'' [''BasePart'', ''PVInstance'', ''Instance''] None None []"

definition vehicle :: Instance where
  "vehicle = Instance 1 ''Vehicle'' ''Model'' [''PVInstance'', ''Instance''] (Some LeftWheel) None [LeftWheel]"

definition garage :: Instance where
  "garage = Instance 4 ''Garage'' ''Folder'' [''Instance''] None None [vehicle]"

definition target :: Instance where
  "target = Instance 5 ''Target'' ''ObjectValue'' [''ValueBase'', ''Instance''] None (Some LeftWheel) []"

definition chassis :: Instance where
  "chassis = Instance 6 ''Chassis'' ''Model'' [''PVInstance'', ''Instance''] None None []"

definition yard :: Instance where
  "yard = Instance 7 ''Yard'' ''Folder'' [''Instance''] None None [chassis]"

definition slot :: Instance where
  "slot = Instance 8 ''Slot'' ''ObjectValue'' [''ValueBase'', ''Instance''] None None []"

definition arriving :: "nat \<Rightarrow> (Instance, string) outcome" where
  "arriving k = (if k < 2 then Returns None else Returns (Some LeftWheel))"

definition present :: "nat \<Rightarrow> (Instance, string) outcome" where
  "present k = Returns (Some LeftWheel)"

definition recovering :: "nat \<Rightarrow> (Instance, string) outcome" where
  "recovering k = (if k = 0 then Returns None else if k = 1 then Throws ''not ready''
     else Returns (Some LeftWheel))"

definition failing :: "nat \<Rightarrow> (Instance, string) outcome" where
  "failing k = (if k = 0 then Returns None else Throws ''not ready'')"

definition throwing :: "nat \<Rightarrow> (Instance, string) outcome" where
  "throwing k = Throws ''not ready''"

definition ticking :: "nat \<Rightarrow> Instance custom" where
  "ticking n = \<lparr>promise = Started, hb = Some \<lparr>Signal = Heartbeat, Connected = True\<rparr>,
     delay = Some \<lparr>Signal = Delay 60, Connected = True\<rparr>, calls = n\<rparr>"

lemmas example_defs = LeftWheel_def RightWheel_def vehicle_def garage_def target_def chassis_def
  yard_def slot_def arriving_def present_def recovering_def failing_def throwing_def ticking_def

lemmas model_defs = waitForChild_def waitForChildWhichIsA_def waitForChildOfClass_def
  waitForPrimaryPart_def waitForObjectValue_def waitForCustom_def waitForChildren_def
  FindFirstChild_def FindFirstChildWhichIsA_def FindFirstChildOfClass_def IsA_def
  or_default_def DEFAULT_TIMEOUT_def Promise_resolve_def Promise_fromEvent_def watchDestroying_def
  timeout_def on_found_def then_all_def reject_all_def is_resolved_def Connect_def Disconnect_def
  batch_run_def batch_step_def deliver_def step_def settle_def cancel_def listening_def
  custom_step_def subscriptions_def run_def Let_def

section \<open>Single promises\<close>

lemma fires_Delay: "fires e (Delay d) \<Longrightarrow> \<exists>t. e = OnClock t \<and> d \<le> t"
  by (cases e) simp_all

lemma fires_Destroying: "fires e (Destroying u) \<Longrightarrow> e = OnDestroying u"
  by (cases e) simp_all

lemma fires_ChildAdded: "fires e (ChildAdded u) \<Longrightarrow> \<exists>c. e = OnChildAdded u c"
  by (cases e) simp_all

lemma fires_exclusive:
  "\<not> (fires e (Destroying u) \<and> fires e (Delay d))"
  "fires e (ChildAdded v) \<or> fires e (DescendantAdded v) \<or> fires e (PropertyChanged v n) \<or>
   fires e (Changed v) \<or> fires e Heartbeat \<Longrightarrow> \<not> fires e (Destroying u) \<and> \<not> fires e (Delay d)"
  by (cases e; simp)+

lemma step_settled: "status p \<noteq> Started \<Longrightarrow> step e p = p"
  by (simp add: step_def)

lemma step_cases:
  assumes "status p = Started"
  shows "step e p = p
       \<or> (listening e (watch p) \<and> step e p = settle (Rejected Destroyed) p)
       \<or> (listening e (timer p) \<and> step e p = settle (Rejected TimedOut) p)
       \<or> (\<exists>v. listening e (connection p) \<and> predicate p e = Some v \<and> step e p = settle (Resolved v) p)"
  using assms by (auto simp: step_def split: option.splits)

lemma status_settle [simp]: "status (settle r p) = r"
  by (simp add: settle_def)

lemma predicate_settle [simp]: "predicate (settle r p) = predicate p"
  by (simp add: settle_def)

lemma step_Started: "status (step e p) = Started \<Longrightarrow> step e p = p"
  by (cases "status p = Started") (auto simp: step_settled dest: step_cases [of p e])

lemma run_Nil [simp]: "run p [] = p"
  by (simp add: run_def)

lemma run_Cons [simp]: "run p (e # evs) = run (step e p) evs"
  by (simp add: run_def)

lemma run_append [simp]: "run p (evs @ evs') = run (run p evs) evs'"
  by (simp add: run_def)

lemma run_settled: "status p \<noteq> Started \<Longrightarrow> run p evs = p"
  by (induction evs) (simp_all add: step_settled)

lemma run_Started: "status (run p evs) = Started \<Longrightarrow> run p evs = p"
proof (induction evs arbitrary: p)
  case Nil
  then show ?case by simp
next
  case (Cons e evs)
  from Cons.prems have r: "status (run (step e p) evs) = Started" by simp
  from Cons.IH [OF r] have eq: "run (step e p) evs = step e p" .
  with r have "status (step e p) = Started" by simp
  then have "step e p = p" by (rule step_Started)
  with eq show ?case by simp
qed

lemma predicate_step [simp]: "predicate (step e p) = predicate p"
  by (cases "status p = Started") (auto simp: step_settled dest: step_cases [of p e])

lemma timer_signal_settle [simp]:
  "map_option Signal (timer (settle r p)) = map_option Signal (timer p)"
  by (cases "timer p") (simp_all add: settle_def Disconnect_def)

lemma timer_signal_step [simp]:
  "map_option Signal (timer (step e p)) = map_option Signal (timer p)"
  by (cases "status p = Started") (auto simp: step_settled dest: step_cases [of p e])

lemma step_TimedOut:
  assumes "status p \<noteq> Rejected TimedOut" and "status (step e p) = Rejected TimedOut"
    and "map_option Signal (timer p) = Some (Delay T)"
  shows "\<exists>t. e = OnClock t \<and> T \<le> t"
proof -
  from assms(1,2) have st: "status p = Started" by (auto simp: step_def split: if_splits)
  from step_cases [OF st, of e] assms(1,2) have "listening e (timer p)" by auto
  with assms(3) have "fires e (Delay T)" by (auto simp: listening_def split: option.splits)
  then show ?thesis by (rule fires_Delay)
qed

lemma run_TimedOut:
  assumes "status (run p evs) = Rejected TimedOut" and "status p \<noteq> Rejected TimedOut"
    and "map_option Signal (timer p) = Some (Delay T)"
  shows "\<exists>t. OnClock t \<in> set evs \<and> T \<le> t"
  using assms
proof (induction evs arbitrary: p)
  case Nil
  then show ?case by simp
next
  case (Cons e evs)
  show ?case
  proof (cases "status (step e p) = Rejected TimedOut")
    case True
    from step_TimedOut [OF Cons.prems(2) True Cons.prems(3)] show ?thesis by auto
  next
    case False
    from Cons.IH [OF _ False] Cons.prems show ?thesis by auto
  qed
qed

lemma step_rejects:
  assumes "status (step e p) = Rejected err"
  shows "status p = Rejected err \<or> err = Destroyed \<or> err = TimedOut"
proof (cases "status p = Started")
  case True
  from step_cases [OF True, of e] assms True show ?thesis
    by (elim disjE exE conjE) simp_all
next
  case False
  with assms show ?thesis by (simp add: step_settled)
qed

lemma run_rejects:
  "status (run p evs) = Rejected err \<Longrightarrow> status p = Rejected err \<or> err = Destroyed \<or> err = TimedOut"
proof (induction evs arbitrary: p)
  case Nil
  then show ?case by simp
next
  case (Cons e evs)
  then show ?case using step_rejects [of e p err] by auto
qed

lemma step_Resolved:
  assumes "status (step e p) = Resolved v" and "status p = Started"
  shows "listening e (connection p) \<and> predicate p e = Some v"
  using step_cases [OF assms(2), of e] assms by (elim disjE exE conjE) simp_all

lemma run_Resolved:
  assumes "status (run p evs) = Resolved v" and "status p = Started"
  shows "\<exists>e\<in>set evs. listening e (connection p) \<and> predicate p e = Some v"
  using assms
proof (induction evs arbitrary: p)
  case Nil
  then show ?case by simp
next
  case (Cons e evs)
  show ?case
  proof (cases "status (step e p) = Started")
    case True
    then have "step e p = p" by (rule step_Started)
    with Cons show ?thesis by simp
  next
    case False
    with Cons.prems have "status (step e p) = Resolved v" by (simp add: run_settled)
    from step_Resolved [OF this Cons.prems(2)] show ?thesis by simp
  qed
qed

lemma pending_promise:
  "timeout (watchDestroying inst (Promise_fromEvent s f)) T =
     \<lparr>status = Started, connection = Some (Connect s), predicate = f,
      watch = Some (Connect (Destroying (uid inst))), timer = Some (Connect (Delay T))\<rparr>"
  by (simp add: timeout_def watchDestroying_def Promise_fromEvent_def)

lemma subscriptions_resolve [simp]: "subscriptions (Promise_resolve v) = []"
  by (simp add: subscriptions_def Promise_resolve_def)

lemma status_resolve [simp]: "status (Promise_resolve v) = Resolved v"
  by (simp add: Promise_resolve_def)

lemma is_resolved_resolve [simp]: "is_resolved (Promise_resolve v)"
  by (simp add: is_resolved_def)

lemma values_of_resolve [simp]: "values_of (map Promise_resolve cs) = cs"
  by (induction cs) simp_all

lemma is_resolved_iff: "is_resolved p \<longleftrightarrow> (\<exists>c. status p = Resolved c)"
  by (cases "status p") (simp_all add: is_resolved_def)

lemma status_cancel: "status (cancel p) = (if status p = Started then Cancelled else status p)"
  by (simp add: cancel_def)

lemma is_resolved_cancel [simp]: "is_resolved (cancel p) = is_resolved p"
  by (simp add: is_resolved_def status_cancel)

lemma armed_not_TimedOut:
  assumes "armed T p" and "status (run p evs) = Rejected TimedOut" and "status p \<noteq> Rejected TimedOut"
  shows "\<exists>t. OnClock t \<in> set evs \<and> T \<le> t"
proof (cases "status p = Started")
  case True
  with assms(1) have "map_option Signal (timer p) = Some (Delay T)"
    by (simp add: armed_def Connect_def)
  from run_TimedOut [OF assms(2,3) this] show ?thesis .
next
  case False
  with assms(2,3) show ?thesis by (simp add: run_settled)
qed

lemma armed_clock:
  assumes "armed T p" and "status p = Started" and "T \<le> t"
  shows "step (OnClock t) p = settle (Rejected TimedOut) p"
  using assms by (auto simp: armed_def step_def listening_def Connect_def)

lemma armed_run_clock:
  assumes "armed T p" and "status (run p evs) = Started" and "T \<le> t"
  shows "status (run p (evs @ [OnClock t])) = Rejected TimedOut"
proof -
  from assms(2) have eq: "run p evs = p" by (rule run_Started)
  with assms(2) have "status p = Started" by simp
  from armed_clock [OF assms(1) this assms(3)] eq show ?thesis by simp
qed

lemma armed_resolve [simp]: "armed T (Promise_resolve v)"
  by (simp add: armed_def Promise_resolve_def)

lemma armed_pending [simp]: "armed T (timeout (watchDestroying inst (Promise_fromEvent s f)) T)"
  by (auto simp: armed_def pending_promise)

lemma status_pending [simp]: "status (timeout (watchDestroying inst (Promise_fromEvent s f)) T) = Started"
  by (simp add: pending_promise)

lemma armed_step:
  assumes "armed T p"
  shows "armed T (step e p)"
proof (cases "status (step e p) = Started")
  case True
  then have "step e p = p" by (rule step_Started)
  with assms show ?thesis by simp
next
  case False
  then show ?thesis by (simp add: armed_def)
qed

lemma armed_cancel: "armed T p \<Longrightarrow> armed T (cancel p)"
  by (simp add: armed_def cancel_def)

lemma armed_waits:
  "armed (or_default DEFAULT_TIMEOUT tmo) (waitForChild parent childName recursive tmo)"
  "armed (or_default DEFAULT_TIMEOUT tmo) (waitForChildWhichIsA parent className recursive tmo)"
  "armed (or_default DEFAULT_TIMEOUT tmo) (waitForChildOfClass parent className tmo)"
  "armed (or_default DEFAULT_TIMEOUT tmo) (waitForPrimaryPart model tmo)"
  "armed (or_default DEFAULT_TIMEOUT tmo) (waitForObjectValue objectValue tmo)"
  by (simp_all add: waitForChild_def waitForChildWhichIsA_def waitForChildOfClass_def
      waitForPrimaryPart_def waitForObjectValue_def split: option.splits)

lemma fresh_waits:
  "status (waitForChild parent childName recursive tmo) \<noteq> Rejected err"
  "status (waitForChildWhichIsA parent className recursive tmo) \<noteq> Rejected err"
  "status (waitForChildOfClass parent className tmo) \<noteq> Rejected err"
  "status (waitForPrimaryPart model tmo) \<noteq> Rejected err"
  "status (waitForObjectValue objectValue tmo) \<noteq> Rejected err"
  by (simp_all add: waitForChild_def waitForChildWhichIsA_def waitForChildOfClass_def
      waitForPrimaryPart_def waitForObjectValue_def Promise_resolve_def split: option.splits)

lemma default_60 [simp]: "or_default DEFAULT_TIMEOUT None = 60"
  by (simp add: or_default_def DEFAULT_TIMEOUT_def)

lemma waitForChild_cases:
  obtains (found) child where "FindFirstChild parent childName (or_default False recursive) = Some child"
      and "waitForChild parent childName recursive tmo = Promise_resolve child"
  | (pending) "FindFirstChild parent childName (or_default False recursive) = None"
      and "waitForChild parent childName recursive tmo =
        \<lparr>status = Started,
         connection = Some (Connect (if or_default False recursive then DescendantAdded (uid parent)
                                     else ChildAdded (uid parent))),
         predicate = (\<lambda>e. case added e of None \<Rightarrow> None
                           | Some c \<Rightarrow> if Name c = childName then Some c else None),
         watch = Some (Connect (Destroying (uid parent))),
         timer = Some (Connect (Delay (or_default DEFAULT_TIMEOUT tmo)))\<rparr>"
  by (cases "FindFirstChild parent childName (or_default False recursive)")
     (simp_all add: waitForChild_def pending_promise)

lemma FindFirstChild_Name: "FindFirstChild parent n r = Some c \<Longrightarrow> Name c = n"
  by (auto simp: FindFirstChild_def find_Some_iff)

lemma named_waitForChild: "named n (waitForChild parent n recursive tmo)"
  by (cases rule: waitForChild_cases [of parent n recursive tmo])
     (auto simp: named_def Promise_resolve_def dest: FindFirstChild_Name split: option.splits if_splits)

lemma named_step:
  assumes "named n p"
  shows "named n (step e p)"
proof (cases "status p = Started")
  case True
  from step_cases [OF True, of e] assms show ?thesis
    by (elim disjE exE conjE) (auto simp: named_def)
next
  case False
  with assms show ?thesis by (simp add: step_settled)
qed

lemma named_cancel: "named n p \<Longrightarrow> named n (cancel p)"
  by (auto simp: named_def cancel_def)

section \<open>Polling a predicate\<close>

lemma custom_step_settled: "promise s \<noteq> Started \<Longrightarrow> custom_step pred e s = (None, s)"
  by (simp add: custom_step_def)

lemma custom_run_settled: "promise s \<noteq> Started \<Longrightarrow> custom_run pred s evs = ([], s)"
  by (induction evs) (simp_all add: custom_step_settled)

lemma custom_step_tick:
  "custom_step pred OnHeartbeat (polling T n) =
     (case pred n of
        Throws x \<Rightarrow> (Some x, polling T (Suc n))
      | Returns None \<Rightarrow> (None, polling T (Suc n))
      | Returns (Some v) \<Rightarrow>
          (None, \<lparr>promise = Resolved v, hb = Some (Disconnect (Connect Heartbeat)),
                   delay = Some (Disconnect (Connect (Delay T))), calls = Suc n\<rparr>))"
  by (simp add: custom_step_def polling_def listening_def Connect_def
      split: outcome.splits option.splits)

lemma custom_step_clock:
  "custom_step pred (OnClock t) (polling T n) =
     (if T \<le> t
      then (None, \<lparr>promise = Rejected TimedOut, hb = Some (Disconnect (Connect Heartbeat)),
                   delay = Some (Disconnect (Connect (Delay T))), calls = n\<rparr>)
      else (None, polling T n))"
  by (simp add: custom_step_def polling_def listening_def Connect_def)

lemma custom_step_other:
  "e \<noteq> OnHeartbeat \<Longrightarrow> (\<forall>t. e \<noteq> OnClock t) \<Longrightarrow> custom_step pred e (polling T n) = (None, polling T n)"
  by (cases e) (simp_all add: custom_step_def polling_def listening_def Connect_def)

lemma custom_step_polling:
  assumes "\<forall>k<n. k \<noteq> 0 \<longrightarrow> (\<forall>w. pred k \<noteq> Returns (Some w))"
  shows "(snd (custom_step pred e (polling T n)) = polling T (n + (if e = OnHeartbeat then 1 else 0)) \<and>
          (\<forall>k<n + (if e = OnHeartbeat then 1 else 0). k \<noteq> 0 \<longrightarrow> (\<forall>w. pred k \<noteq> Returns (Some w))))
       \<or> (promise (snd (custom_step pred e (polling T n))) \<noteq> Started \<and>
          hb (snd (custom_step pred e (polling T n))) = Some (Disconnect (Connect Heartbeat)) \<and>
          calls (snd (custom_step pred e (polling T n))) \<le> n + (if e = OnHeartbeat then 1 else 0))"
proof (cases "e = OnHeartbeat")
  case True
  show ?thesis
  proof (cases "pred n")
    case (Returns r)
    show ?thesis
    proof (cases r)
      case None
      with Returns True assms show ?thesis
        by (auto simp: custom_step_tick less_Suc_eq)
    next
      case (Some v)
      with Returns True show ?thesis by (simp add: custom_step_tick)
    qed
  next
    case (Throws x)
    with True assms show ?thesis by (auto simp: custom_step_tick less_Suc_eq)
  qed
next
  case False
  show ?thesis
  proof (cases "\<exists>t. e = OnClock t")
    case True
    then obtain t where "e = OnClock t" by blast
    with assms show ?thesis by (simp add: custom_step_clock)
  next
    case no_clock: False
    with False assms show ?thesis by (simp add: custom_step_other)
  qed
qed

lemma custom_run_polling:
  assumes "\<forall>k<n. k \<noteq> 0 \<longrightarrow> (\<forall>w. pred k \<noteq> Returns (Some w))"
  shows "(snd (custom_run pred (polling T n) evs) = polling T (n + count_list evs OnHeartbeat) \<and>
          (\<forall>k<n + count_list evs OnHeartbeat. k \<noteq> 0 \<longrightarrow> (\<forall>w. pred k \<noteq> Returns (Some w))))
       \<or> (promise (snd (custom_run pred (polling T n) evs)) \<noteq> Started \<and>
          hb (snd (custom_run pred (polling T n) evs)) = Some (Disconnect (Connect Heartbeat)) \<and>
          calls (snd (custom_run pred (polling T n) evs)) \<le> n + count_list evs OnHeartbeat)"
  using assms
proof (induction evs arbitrary: n)
  case Nil
  then show ?case by simp
next
  case (Cons e evs)
  let ?d = "if e = OnHeartbeat then 1 else 0 :: nat"
  obtain x s' where st: "custom_step pred e (polling T n) = (x, s')"
    by (cases "custom_step pred e (polling T n)")
  have run: "snd (custom_run pred (polling T n) (e # evs)) = snd (custom_run pred s' evs)"
    by (simp add: st split: prod.splits)
  have cnt: "n + count_list (e # evs) OnHeartbeat = (n + ?d) + count_list evs OnHeartbeat"
    by simp
  from custom_step_polling [OF Cons.prems, of e T] st
  consider (go) "s' = polling T (n + ?d)"
      "\<forall>k<n + ?d. k \<noteq> 0 \<longrightarrow> (\<forall>w. pred k \<noteq> Returns (Some w))"
    | (stop) "promise s' \<noteq> Started" "hb s' = Some (Disconnect (Connect Heartbeat))"
      "calls s' \<le> n + ?d"
    by auto
  then show ?case
  proof cases
    case go
    from Cons.IH [OF go(2)] show ?thesis unfolding run cnt go(1) .
  next
    case stop
    then have "snd (custom_run pred s' evs) = s'" by (simp add: custom_run_settled)
    with stop show ?thesis unfolding run cnt by simp
  qed
qed

lemma waitForCustom_cases:
  "waitForCustom pred tmo =
     (case pred 0 of
        Throws x \<Rightarrow> Inl x
      | Returns (Some v) \<Rightarrow> Inr \<lparr>promise = Resolved v, hb = None, delay = None, calls = 1\<rparr>
      | Returns None \<Rightarrow> Inr (polling (or_default DEFAULT_TIMEOUT tmo) 1))"
  by (simp add: waitForCustom_def polling_def split: outcome.splits option.splits)

lemma waitForCustom_reach:
  assumes "waitForCustom pred tmo = Inr s0"
  shows "calls s0 = 1 \<and>
    ((pred 0 = Returns None \<and>
      snd (custom_run pred s0 evs) = polling (or_default DEFAULT_TIMEOUT tmo) (1 + count_list evs OnHeartbeat) \<and>
      (\<forall>k<1 + count_list evs OnHeartbeat. k \<noteq> 0 \<longrightarrow> (\<forall>w. pred k \<noteq> Returns (Some w))))
     \<or> (promise (snd (custom_run pred s0 evs)) \<noteq> Started \<and>
        \<not> listening OnHeartbeat (hb (snd (custom_run pred s0 evs))) \<and>
        calls (snd (custom_run pred s0 evs)) \<le> 1 + count_list evs OnHeartbeat))"
proof (cases "pred 0")
  case (Returns r)
  show ?thesis
  proof (cases r)
    case None
    with Returns assms have s0: "s0 = polling (or_default DEFAULT_TIMEOUT tmo) 1"
      by (simp add: waitForCustom_cases)
    have "\<forall>k<1::nat. k \<noteq> 0 \<longrightarrow> (\<forall>w. pred k \<noteq> Returns (Some w))" by simp
    from custom_run_polling [OF this, of "or_default DEFAULT_TIMEOUT tmo" evs] Returns None
    show ?thesis unfolding s0
      by (auto simp: polling_def listening_def Disconnect_def)
  next
    case (Some v)
    with Returns assms have s0: "s0 = \<lparr>promise = Resolved v, hb = None, delay = None, calls = 1\<rparr>"
      by (simp add: waitForCustom_cases)
    show ?thesis by (simp add: s0 custom_run_settled listening_def)
  qed
next
  case (Throws x)
  with assms show ?thesis by (simp add: waitForCustom_cases)
qed

lemma custom_step_rejects:
  "promise (snd (custom_step pred e s)) = Rejected err \<Longrightarrow> promise s = Rejected err \<or> err = TimedOut"
  by (auto simp: custom_step_def split: if_splits outcome.splits option.splits)

lemma custom_run_rejects:
  "promise (snd (custom_run pred s evs)) = Rejected err \<Longrightarrow> promise s = Rejected err \<or> err = TimedOut"
proof (induction evs arbitrary: s)
  case Nil
  then show ?case by simp
next
  case (Cons e evs)
  obtain x s' where st: "custom_step pred e s = (x, s')" by (cases "custom_step pred e s")
  from Cons.prems st have "promise (snd (custom_run pred s' evs)) = Rejected err"
    by (simp split: prod.splits)
  from Cons.IH [OF this] have "promise s' = Rejected err \<or> err = TimedOut" .
  with custom_step_rejects [of pred e s err] st show ?case by auto
qed

lemma custom_step_polling_cases:
  "(\<exists>t. e = OnClock t \<and> T \<le> t)
   \<or> (\<exists>n'. snd (custom_step pred e (polling T n)) = polling T n')
   \<or> (\<exists>v. promise (snd (custom_step pred e (polling T n))) = Resolved v)"
proof (cases "e = OnHeartbeat")
  case True
  then show ?thesis by (auto simp: custom_step_tick split: outcome.splits option.splits)
next
  case False
  show ?thesis
  proof (cases "\<exists>t. e = OnClock t")
    case True
    then obtain t where "e = OnClock t" by blast
    then show ?thesis by (auto simp: custom_step_clock)
  next
    case no_clock: False
    with False have "custom_step pred e (polling T n) = (None, polling T n)"
      by (simp add: custom_step_other)
    then show ?thesis by auto
  qed
qed

lemma custom_run_TimedOut:
  "promise (snd (custom_run pred (polling T n) evs)) = Rejected err \<Longrightarrow>
   \<exists>t. OnClock t \<in> set evs \<and> T \<le> t"
proof (induction evs arbitrary: n)
  case Nil
  then show ?case by (simp add: polling_def)
next
  case (Cons e evs)
  obtain x s' where st: "custom_step pred e (polling T n) = (x, s')"
    by (cases "custom_step pred e (polling T n)")
  from Cons.prems st have fin: "promise (snd (custom_run pred s' evs)) = Rejected err"
    by (simp split: prod.splits)
  from custom_step_polling_cases [of e T pred n] st
  consider (clock) t where "e = OnClock t" "T \<le> t"
    | (go) n' where "s' = polling T n'"
    | (stop) v where "promise s' = Resolved v" by auto
  then show ?case
  proof cases
    case clock
    then show ?thesis by auto
  next
    case go
    with fin Cons.IH [of n'] show ?thesis by auto
  next
    case stop
    then have "custom_run pred s' evs = ([], s')" by (simp add: custom_run_settled)
    with fin stop show ?thesis by simp
  qed
qed

lemma waitForCustom_TimedOut:
  assumes "waitForCustom pred tmo = Inr s0"
    and "promise (snd (custom_run pred s0 evs)) = Rejected err"
  shows "err = TimedOut \<and> (\<exists>t. OnClock t \<in> set evs \<and> or_default DEFAULT_TIMEOUT tmo \<le> t)"
proof -
  from custom_run_rejects [OF assms(2)] assms(1) have e: "err = TimedOut"
    by (auto simp: waitForCustom_cases polling_def split: outcome.splits option.splits)
  have "s0 = polling (or_default DEFAULT_TIMEOUT tmo) 1"
  proof (rule ccontr)
    assume "s0 \<noteq> polling (or_default DEFAULT_TIMEOUT tmo) 1"
    with assms(1) have "promise s0 \<noteq> Started \<and> (\<forall>err. promise s0 \<noteq> Rejected err)"
      by (auto simp: waitForCustom_cases split: outcome.splits option.splits)
    with assms(2) show False by (simp add: custom_run_settled)
  qed
  with assms(2) custom_run_TimedOut [of pred "or_default DEFAULT_TIMEOUT tmo" 1 evs err] e
  show ?thesis by simp
qed

lemma waitForCustom_clock:
  assumes "waitForCustom pred tmo = Inr s0" and "promise (snd (custom_run pred s0 evs)) = Started"
    and "or_default DEFAULT_TIMEOUT tmo \<le> t"
  shows "promise (snd (custom_step pred (OnClock t) (snd (custom_run pred s0 evs)))) = Rejected TimedOut"
proof -
  from waitForCustom_reach [OF assms(1), of evs] assms(2)
  have "snd (custom_run pred s0 evs) =
      polling (or_default DEFAULT_TIMEOUT tmo) (1 + count_list evs OnHeartbeat)" by auto
  with assms(3) show ?thesis by (simp add: custom_step_clock)
qed

text \<open>
  C5. A call of \<^verbatim>\<open>waitForCustom\<close> that returns a promise has invoked the predicate
  exactly once, and the promise is pending exactly when that invocation returned
  \<^verbatim>\<open>undefined\<close>. As long as the promise is pending, the predicate has been invoked
  once at the call and once for every Heartbeat since, the Heartbeat listener is
  connected, and no invocation after the first has returned a value; the next Heartbeat
  invokes it once more, and if it returns a value the promise is resolved with that
  value and the listener is disconnected, otherwise nothing else changes; the clock
  reaching the timeout rejects the promise and disconnects the listener without
  invoking the predicate. Once the promise is settled, no event invokes the predicate.
\<close>

theorem waitForCustom_polls_each_tick:
  assumes "waitForCustom pred tmo = Inr s0" and "s = snd (custom_run pred s0 evs)"
  shows "calls s0 = 1 \<and>
    (promise s0 = Started) = (pred 0 = Returns None) \<and>
    (promise s = Started \<longrightarrow>
       calls s = 1 + count_list evs OnHeartbeat \<and>
       hb s = Some \<lparr>Signal = Heartbeat, Connected = True\<rparr> \<and>
       (\<forall>k<calls s. k \<noteq> 0 \<longrightarrow> (\<forall>w. pred k \<noteq> Returns (Some w))) \<and>
       calls (snd (custom_step pred OnHeartbeat s)) = Suc (calls s) \<and>
       (\<forall>w. pred (calls s) = Returns (Some w) \<longrightarrow>
          promise (snd (custom_step pred OnHeartbeat s)) = Resolved w \<and>
          hb (snd (custom_step pred OnHeartbeat s)) = Some \<lparr>Signal = Heartbeat, Connected = False\<rparr>) \<and>
       ((\<forall>w. pred (calls s) \<noteq> Returns (Some w)) \<longrightarrow>
          snd (custom_step pred OnHeartbeat s) = s\<lparr>calls := Suc (calls s)\<rparr>) \<and>
       (\<forall>t. or_default DEFAULT_TIMEOUT tmo \<le> t \<longrightarrow>
          promise (snd (custom_step pred (OnClock t) s)) = Rejected TimedOut \<and>
          hb (snd (custom_step pred (OnClock t) s)) = Some \<lparr>Signal = Heartbeat, Connected = False\<rparr> \<and>
          calls (snd (custom_step pred (OnClock t) s)) = calls s)) \<and>
    (promise s \<noteq> Started \<longrightarrow>
       snd (custom_step pred e s) = s \<and> \<not> listening OnHeartbeat (hb s) \<and>
       calls s \<le> 1 + count_list evs OnHeartbeat)"
proof -
  let ?T = "or_default DEFAULT_TIMEOUT tmo"
  let ?n = "1 + count_list evs OnHeartbeat"
  note reach = waitForCustom_reach [OF assms(1), of evs, folded assms(2)]
  have c0: "calls s0 = 1" using reach by simp
  have p0: "(promise s0 = Started) = (pred 0 = Returns None)"
    using assms(1) by (auto simp: waitForCustom_cases polling_def split: outcome.splits option.splits)
  have pend: "calls s = ?n \<and>
       hb s = Some \<lparr>Signal = Heartbeat, Connected = True\<rparr> \<and>
       (\<forall>k<calls s. k \<noteq> 0 \<longrightarrow> (\<forall>w. pred k \<noteq> Returns (Some w))) \<and>
       calls (snd (custom_step pred OnHeartbeat s)) = Suc (calls s) \<and>
       (\<forall>w. pred (calls s) = Returns (Some w) \<longrightarrow>
          promise (snd (custom_step pred OnHeartbeat s)) = Resolved w \<and>
          hb (snd (custom_step pred OnHeartbeat s)) = Some \<lparr>Signal = Heartbeat, Connected = False\<rparr>) \<and>
       ((\<forall>w. pred (calls s) \<noteq> Returns (Some w)) \<longrightarrow>
          snd (custom_step pred OnHeartbeat s) = s\<lparr>calls := Suc (calls s)\<rparr>) \<and>
       (\<forall>t. ?T \<le> t \<longrightarrow>
          promise (snd (custom_step pred (OnClock t) s)) = Rejected TimedOut \<and>
          hb (snd (custom_step pred (OnClock t) s)) = Some \<lparr>Signal = Heartbeat, Connected = False\<rparr> \<and>
          calls (snd (custom_step pred (OnClock t) s)) = calls s)" if "promise s = Started"
  proof -
    from reach that have s: "s = polling ?T ?n"
      and first: "\<forall>k<?n. k \<noteq> 0 \<longrightarrow> (\<forall>w. pred k \<noteq> Returns (Some w))" by auto
    have c: "calls s = ?n" and h: "hb s = Some \<lparr>Signal = Heartbeat, Connected = True\<rparr>"
      by (simp_all add: s polling_def Connect_def)
    have tick: "calls (snd (custom_step pred OnHeartbeat s)) = Suc (calls s)"
      unfolding s custom_step_tick by (simp add: polling_def split: outcome.splits option.splits)
    have res: "promise (snd (custom_step pred OnHeartbeat s)) = Resolved w \<and>
          hb (snd (custom_step pred OnHeartbeat s)) = Some \<lparr>Signal = Heartbeat, Connected = False\<rparr>"
      if "pred (calls s) = Returns (Some w)" for w
      using that unfolding s custom_step_tick by (simp add: polling_def Connect_def Disconnect_def)
    have nores: "snd (custom_step pred OnHeartbeat s) = s\<lparr>calls := Suc (calls s)\<rparr>"
      if "\<forall>w. pred (calls s) \<noteq> Returns (Some w)"
      using that unfolding s custom_step_tick
      by (auto simp: polling_def split: outcome.splits option.splits)
    have clock: "promise (snd (custom_step pred (OnClock t) s)) = Rejected TimedOut \<and>
          hb (snd (custom_step pred (OnClock t) s)) = Some \<lparr>Signal = Heartbeat, Connected = False\<rparr> \<and>
          calls (snd (custom_step pred (OnClock t) s)) = calls s" if "?T \<le> t" for t
      using that unfolding s custom_step_clock by (simp add: polling_def Connect_def Disconnect_def)
    from c h first tick res nores clock show ?thesis by (simp only: c) blast
  qed
  have settled: "snd (custom_step pred e s) = s \<and> \<not> listening OnHeartbeat (hb s) \<and> calls s \<le> ?n"
    if "promise s \<noteq> Started"
    using reach that by (auto simp: custom_step_settled polling_def)
  from c0 p0 pend settled show ?thesis by blast
qed

theorem waitForCustom_polls_each_tick_witness:
  "waitForCustom arriving None = Inr (ticking 1) \<and>
   snd (custom_run arriving (ticking 1) [OnHeartbeat]) = ticking 2 \<and>
   calls (ticking 1) = 1 \<and>
   promise (ticking 2) = Started \<and>
   calls (ticking 2) = 1 + count_list [OnHeartbeat] OnHeartbeat \<and>
   arriving (calls (ticking 2)) = Returns (Some LeftWheel) \<and>
   calls (snd (custom_step arriving OnHeartbeat (ticking 2))) = Suc (calls (ticking 2)) \<and>
   promise (snd (custom_step arriving OnHeartbeat (ticking 2))) = Resolved LeftWheel \<and>
   hb (snd (custom_step arriving OnHeartbeat (ticking 2))) =
     Some \<lparr>Signal = Heartbeat, Connected = False\<rparr>"
proof -
  have h: "waitForCustom arriving None = Inr (ticking 1)"
    "ticking 2 = snd (custom_run arriving (ticking 1) [OnHeartbeat])"
    "promise (ticking 2) = Started"
    "arriving (calls (ticking 2)) = Returns (Some LeftWheel)"
    by (simp_all add: model_defs example_defs)
  from waitForCustom_polls_each_tick [OF h(1,2)] h show ?thesis by metis
qed

section \<open>The batch wait\<close>

lemma batch_run_Nil [simp]: "batch_run b [] = b"
  by (simp add: batch_run_def)

lemma batch_run_Cons [simp]: "batch_run b (e # evs) = batch_run (batch_step e b) evs"
  by (simp add: batch_run_def)

lemma batch_run_append [simp]: "batch_run b (evs @ evs') = batch_run (batch_run b evs) evs'"
  by (simp add: batch_run_def)

lemma deliver_cases:
  obtains (same) "deliver e i b = b"
  | (found) c where "i < length (all b)" and "status (all b ! i) = Started"
      and "status (step e (all b ! i)) = Resolved c"
      and "deliver e i b = then_all (on_found c (b\<lparr>all := (all b)[i := step e (all b ! i)]\<rparr>))"
  | (failed) err where "i < length (all b)" and "status (all b ! i) = Started"
      and "status (step e (all b ! i)) = Rejected err" and "err = Destroyed \<or> err = TimedOut"
      and "deliver e i b = reject_all err (b\<lparr>all := (all b)[i := step e (all b ! i)]\<rparr>)"
proof (cases "i < length (all b) \<and> status (all b ! i) = Started")
  case False
  then have "deliver e i b = b" by (auto simp: deliver_def)
  then show ?thesis by (rule same)
next
  case True
  then have i: "i < length (all b)" and st: "status (all b ! i) = Started" by simp_all
  show ?thesis
  proof (cases "status (step e (all b ! i))")
    case Started
    then have "step e (all b ! i) = all b ! i" by (rule step_Started)
    with True have "deliver e i b = b" by (simp add: deliver_def Let_def st)
    then show ?thesis by (rule same)
  next
    case (Resolved c)
    with True have "deliver e i b = then_all (on_found c (b\<lparr>all := (all b)[i := step e (all b ! i)]\<rparr>))"
      by (simp add: deliver_def Let_def)
    with i st Resolved show ?thesis by (rule found)
  next
    case (Rejected err)
    with True have d: "deliver e i b = reject_all err (b\<lparr>all := (all b)[i := step e (all b ! i)]\<rparr>)"
      by (simp add: deliver_def Let_def)
    from step_rejects [OF Rejected] st have "err = Destroyed \<or> err = TimedOut" by simp
    with i st Rejected show ?thesis using d by (rule failed)
  next
    case Cancelled
    with step_cases [OF st, of e] st show ?thesis by (elim disjE exE conjE) simp_all
  qed
qed

lemma all_deliver_cases:
  "all (deliver e i b) = all b
   \<or> (i < length (all b) \<and> all (deliver e i b) = (all b)[i := step e (all b ! i)])
   \<or> (i < length (all b) \<and> all (deliver e i b) = map cancel ((all b)[i := step e (all b ! i)]))"
  by (cases rule: deliver_cases [of e i b])
     (auto simp: then_all_def on_found_def reject_all_def)

lemma list_all_update:
  "list_all P xs \<Longrightarrow> P x \<Longrightarrow> list_all P (xs[i := x])"
  by (auto simp: list_all_iff dest: set_update_subset_insert [THEN subsetD])

lemma foldl_deliver_induct:
  assumes "P b" and "\<And>b i. P b \<Longrightarrow> P (deliver e i b)"
  shows "P (foldl (\<lambda>b' i. deliver e i b') b js)"
  using assms(1) by (induction js arbitrary: b) (simp_all add: assms(2))

lemma push_all_all:
  "all (push_all parent recursive tmo names b) =
     all b @ map (\<lambda>n. waitForChild parent n recursive tmo) names"
  by (induction names arbitrary: b) (simp_all add: Let_def on_found_def split: status.splits)

lemma all_then_all [simp]: "all (then_all b) = all b"
  by (simp add: then_all_def)

lemma all_waitForChildren:
  "all (waitForChildren parent names recursive tmo) = map (\<lambda>n. waitForChild parent n recursive tmo) names"
  by (simp add: waitForChildren_def push_all_all)

lemma push_all_found:
  "map (\<lambda>n. FindFirstChild parent n (or_default False recursive)) names = map Some found \<Longrightarrow>
   push_all parent recursive tmo names b =
     b\<lparr>all := all b @ map Promise_resolve found,
       destroying := destroying b @ map (\<lambda>c. Connect (Destroying (uid c))) found\<rparr>"
proof (induction names arbitrary: b found)
  case Nil
  then show ?case by simp
next
  case (Cons n names)
  from Cons.prems obtain c cs where found: "found = c # cs"
    and c: "FindFirstChild parent n (or_default False recursive) = Some c"
    and cs: "map (\<lambda>n. FindFirstChild parent n (or_default False recursive)) names = map Some cs"
    by (cases found) auto
  from c have w: "waitForChild parent n recursive tmo = Promise_resolve c"
    by (simp add: waitForChild_def)
  show ?case
    by (simp add: w found Cons.IH [OF cs] on_found_def Let_def)
qed

lemma waitForChildren_found:
  assumes "map (\<lambda>n. FindFirstChild parent n (or_default False recursive)) names = map Some found"
  shows "waitForChildren parent names recursive tmo =
     \<lparr>all = map Promise_resolve found,
      destroying = map (\<lambda>c. Disconnect (Connect (Destroying (uid c)))) found,
      destroyed = False, result = Resolved found\<rparr>"
  by (simp add: waitForChildren_def push_all_found [OF assms] then_all_def list_all_iff)

lemma batch_ok_pending:
  assumes "batch_ok b" and "p \<in> set (all b)" and "status p = Started"
  shows "result b = Started"
proof (cases "result b")
  case (Resolved cs)
  with assms(1) have "list_all is_resolved (all b)" by (simp add: batch_ok_def)
  with assms(2,3) show ?thesis by (auto simp: list_all_iff is_resolved_iff)
next
  case (Rejected err)
  with assms show ?thesis by (auto simp: batch_ok_def)
next
  case Cancelled
  with assms(1) show ?thesis by (simp add: batch_ok_def)
qed simp

lemma batch_ok_found:
  assumes ok: "batch_ok b" and i: "i < length (all b)" and st: "status (all b ! i) = Started"
    and res: "status q = Resolved c"
  shows "batch_ok (then_all (on_found c (b\<lparr>all := (all b)[i := q]\<rparr>)))"
proof -
  let ?all = "(all b)[i := q]"
  let ?b1 = "on_found c (b\<lparr>all := ?all\<rparr>)"
  from i st have "all b ! i \<in> set (all b)" by simp
  with ok st have started: "result b = Started"
    by (blast intro: batch_ok_pending)
  with ok have each: "\<forall>p\<in>set (all b). status p = Started \<or> is_resolved p"
    and watched: "\<forall>p\<in>set (all b). \<forall>c. status p = Resolved c \<longrightarrow>
           Connect (Destroying (uid c)) \<in> set (destroying b)"
    by (simp_all add: batch_ok_def)
  have mem: "p \<in> set ?all \<Longrightarrow> p = q \<or> p \<in> set (all b)" for p
    using set_update_subset_insert [of "all b" i q] by auto
  have each': "\<forall>p\<in>set ?all. status p = Started \<or> is_resolved p"
    using each res mem by (auto simp: is_resolved_iff)
  have watched': "\<forall>p\<in>set ?all. \<forall>d. status p = Resolved d \<longrightarrow>
           Connect (Destroying (uid d)) \<in> set (destroying ?b1)"
  proof (intro ballI allI impI)
    fix p d
    assume "p \<in> set ?all" and d: "status p = Resolved d"
    from mem [OF this(1)] show "Connect (Destroying (uid d)) \<in> set (destroying ?b1)"
    proof
      assume "p = q"
      with d res have "d = c" by simp
      then show ?thesis by (simp add: on_found_def)
    next
      assume "p \<in> set (all b)"
      with watched d show ?thesis by (simp add: on_found_def)
    qed
  qed
  show ?thesis
  proof (cases "list_all is_resolved ?all")
    case True
    then have "\<forall>p\<in>set ?all. status p \<noteq> Started"
      by (auto simp: list_all_iff is_resolved_iff)
    with True started show ?thesis
      by (auto simp: batch_ok_def then_all_def on_found_def Disconnect_def)
  next
    case False
    with started have "then_all ?b1 = ?b1" by (simp add: then_all_def on_found_def)
    moreover have "batch_ok ?b1"
      unfolding batch_ok_def using False started each' watched'
      by (simp add: on_found_def)
    ultimately show ?thesis by simp
  qed
qed

lemma batch_ok_failed:
  assumes ok: "batch_ok b" and i: "i < length (all b)" and st: "status (all b ! i) = Started"
    and rej: "status q = Rejected err"
  shows "batch_ok (reject_all err (b\<lparr>all := (all b)[i := q]\<rparr>))"
proof -
  let ?all = "(all b)[i := q]"
  from i st have "all b ! i \<in> set (all b)" by simp
  with ok st have started: "result b = Started"
    by (blast intro: batch_ok_pending)
  from i have "q \<in> set ?all" by (rule set_update_memI)
  then have "cancel q \<in> set (map cancel ?all)" by simp
  moreover from rej have "status (cancel q) = Rejected err" by (simp add: status_cancel)
  ultimately have ex: "\<exists>p\<in>set (map cancel ?all). status p = Rejected err" by blast
  have "\<forall>p\<in>set (map cancel ?all). status p \<noteq> Started" by (auto simp: status_cancel)
  with ex started show ?thesis
    by (simp add: batch_ok_def reject_all_def)
qed

lemma batch_ok_deliver: "batch_ok b \<Longrightarrow> batch_ok (deliver e i b)"
proof (cases rule: deliver_cases [of e i b])
  case same
  assume "batch_ok b"
  with same show ?thesis by simp
next
  case (found c)
  assume "batch_ok b"
  from batch_ok_found [OF this found(1,2,3)] found(4) show ?thesis by simp
next
  case (failed err)
  assume "batch_ok b"
  from batch_ok_failed [OF this failed(1,2,3)] failed(5) show ?thesis by simp
qed

lemma batch_ok_destroyed:
  assumes "batch_ok b"
  shows "batch_ok (b\<lparr>destroyed := destroyed b \<or> list_ex (\<lambda>c. Connected c \<and> fires e (Signal c)) (destroying b)\<rparr>)"
proof -
  have "\<not> list_ex (\<lambda>c. Connected c \<and> fires e (Signal c)) (destroying b)" if "result b = Resolved cs" for cs
    using assms that by (auto simp: batch_ok_def list_ex_iff)
  with assms show ?thesis by (auto simp: batch_ok_def)
qed

lemma batch_ok_step: "batch_ok b \<Longrightarrow> batch_ok (batch_step e b)"
  unfolding batch_step_def
  by (rule foldl_deliver_induct) (simp_all add: batch_ok_destroyed batch_ok_deliver)

lemma batch_ok_run: "batch_ok b \<Longrightarrow> batch_ok (batch_run b evs)"
  by (induction evs arbitrary: b) (simp_all add: batch_ok_step)

lemma loop_ok_push_all: "loop_ok b \<Longrightarrow> loop_ok (push_all parent recursive tmo names b)"
proof (induction names arbitrary: b)
  case Nil
  then show ?case by simp
next
  case (Cons n names)
  let ?p = "waitForChild parent n recursive tmo"
  let ?b' = "b\<lparr>all := all b @ [?p]\<rparr>"
  have "loop_ok (case status ?p of Resolved child \<Rightarrow> on_found child ?b' | _ \<Rightarrow> ?b')"
    using Cons.prems
    by (cases rule: waitForChild_cases [of parent n recursive tmo])
       (auto simp: loop_ok_def on_found_def Promise_resolve_def is_resolved_def)
  from Cons.IH [OF this] show ?case by (simp add: Let_def)
qed

lemma batch_ok_then_all: "loop_ok b \<Longrightarrow> batch_ok (then_all b)"
  by (auto simp: loop_ok_def batch_ok_def then_all_def Disconnect_def list_all_iff is_resolved_iff)

lemma batch_ok_waitForChildren: "batch_ok (waitForChildren parent names recursive tmo)"
  unfolding waitForChildren_def
  by (rule batch_ok_then_all, rule loop_ok_push_all) (simp add: loop_ok_def)

subsection \<open>No names\<close>

lemma waitForChildren_Nil:
  "waitForChildren parent [] recursive tmo =
     \<lparr>all = [], destroying = [], destroyed = False, result = Resolved []\<rparr>"
  by (simp add: waitForChildren_def then_all_def)

lemma batch_step_no_promises:
  "all b = [] \<Longrightarrow> destroying b = [] \<Longrightarrow> batch_step e b = b"
  by (simp add: batch_step_def)

lemma batch_run_no_promises:
  "all b = [] \<Longrightarrow> destroying b = [] \<Longrightarrow> batch_run b evs = b"
  by (induction evs arbitrary: b) (simp_all add: batch_run_def batch_step_no_promises)

text \<open>
  C9. \<^verbatim>\<open>waitForChildren\<close> called with no names returns a promise already resolved with
  the empty array, whatever the parent, the recursive flag and the timeout are, and no
  later event (a destruction, the clock passing the timeout) turns it into a rejection.
\<close>

theorem waitForChildren_empty:
  "result (waitForChildren parent [] recursive tmo) = Resolved [] \<and>
   result (batch_run (waitForChildren parent [] recursive tmo) evs) = Resolved []"
  by (simp add: waitForChildren_Nil batch_run_no_promises)

subsection \<open>The order of the result\<close>

lemma named_deliver:
  assumes "list_all2 named ns (all b)"
  shows "list_all2 named ns (all (deliver e i b))"
proof -
  have upd: "list_all2 named ns ((all b)[i := step e (all b ! i)])" if "i < length (all b)"
  proof -
    from assms that have "named (ns ! i) (all b ! i)" by (simp add: list_all2_nthD2)
    then have "named (ns ! i) (step e (all b ! i))" by (rule named_step)
    with assms have "list_all2 named (ns[i := ns ! i]) ((all b)[i := step e (all b ! i)])"
      by (rule list_all2_update_cong)
    then show ?thesis by simp
  qed
  have "list_all2 named ns (map cancel ps)" if "list_all2 named ns ps" for ps
    using that by (simp add: list_all2_map2 list_all2_mono named_cancel)
  with upd assms all_deliver_cases [of e i b] show ?thesis by auto
qed

lemma named_batch_step:
  "list_all2 named ns (all b) \<Longrightarrow> list_all2 named ns (all (batch_step e b))"
  unfolding batch_step_def
  by (rule foldl_deliver_induct [where P = "\<lambda>b. list_all2 named ns (all b)"])
     (simp_all add: named_deliver)

lemma named_batch_run:
  "list_all2 named ns (all b) \<Longrightarrow> list_all2 named ns (all (batch_run b evs))"
  by (induction evs arbitrary: b) (simp_all add: named_batch_step)

lemma named_waitForChildren:
  "list_all2 named names (all (waitForChildren parent names recursive tmo))"
  by (simp add: all_waitForChildren list_all2_map2 list_all2_same named_waitForChild)

lemma values_of_resolved:
  "list_all is_resolved ps \<Longrightarrow>
   length (values_of ps) = length ps \<and> (\<forall>i<length ps. status (ps ! i) = Resolved (values_of ps ! i))"
proof (induction ps)
  case Nil
  then show ?case by simp
next
  case (Cons p ps)
  then obtain v where v: "status p = Resolved v" by (auto simp: is_resolved_iff)
  with Cons show ?case by (auto simp: nth_Cons split: nat.splits)
qed

text \<open>
  C4. When \<^verbatim>\<open>waitForChildren\<close> is resolved, after any sequence of events, the array it
  is resolved with is as long as \<^verbatim>\<open>childrenNames\<close>, its \<open>i\<close>-th element is what the
  \<open>i\<close>-th child wait was resolved with, and that instance was called by the \<open>i\<close>-th name
  when it was found; the order in which the children were found plays no part.
\<close>

theorem batch_result_in_names_order:
  assumes "result (batch_run (waitForChildren parent names recursive tmo) evs) = Resolved children"
  shows "length children = length names \<and>
    (\<forall>i<length names.
       status (all (batch_run (waitForChildren parent names recursive tmo) evs) ! i) = Resolved (children ! i) \<and>
       Name (children ! i) = names ! i)"
proof -
  let ?b = "batch_run (waitForChildren parent names recursive tmo) evs"
  have "batch_ok ?b" by (intro batch_ok_run batch_ok_waitForChildren)
  with assms have cs: "children = values_of (all ?b)" and r: "list_all is_resolved (all ?b)"
    by (simp_all add: batch_ok_def)
  have nm: "list_all2 named names (all ?b)" by (intro named_batch_run named_waitForChildren)
  then have len: "length (all ?b) = length names" by (simp add: list_all2_lengthD)
  from values_of_resolved [OF r] cs len
  have l: "length children = length names"
    and st: "\<forall>i<length names. status (all ?b ! i) = Resolved (children ! i)" by simp_all
  have "Name (children ! i) = names ! i" if "i < length names" for i
  proof -
    from nm that have "named (names ! i) (all ?b ! i)" by (simp add: list_all2_nthD)
    with st that show ?thesis by (simp add: named_def)
  qed
  with l st show ?thesis by simp
qed

theorem batch_result_in_names_order_witness:
  "result (batch_run (waitForChildren vehicle [''RightWheel'', ''LeftWheel''] None None)
     [OnChildAdded 1 RightWheel]) = Resolved [RightWheel, LeftWheel] \<and>
   status (all (batch_run (waitForChildren vehicle [''RightWheel'', ''LeftWheel''] None None)
     [OnChildAdded 1 RightWheel]) ! 0) = Resolved RightWheel \<and>
   status (all (batch_run (waitForChildren vehicle [''RightWheel'', ''LeftWheel''] None None)
     [OnChildAdded 1 RightWheel]) ! 1) = Resolved LeftWheel \<and>
   Name RightWheel = ''RightWheel'' \<and> Name LeftWheel = ''LeftWheel''"
proof -
  let ?b = "batch_run (waitForChildren vehicle [''RightWheel'', ''LeftWheel''] None None)
     [OnChildAdded 1 RightWheel]"
  have h: "result ?b = Resolved [RightWheel, LeftWheel]"
    by (simp add: model_defs example_defs upt_rec)
  note t = batch_result_in_names_order [OF h, THEN conjunct2, rule_format]
  have "status (all ?b ! 0) = Resolved RightWheel \<and> Name RightWheel = ''RightWheel''"
    using t [of 0] by simp
  moreover have "status (all ?b ! 1) = Resolved LeftWheel \<and> Name LeftWheel = ''LeftWheel''"
    using t [of 1] by simp
  ultimately have "status (all ?b ! 0) = Resolved RightWheel \<and> Name RightWheel = ''RightWheel'' \<and>
      status (all ?b ! 1) = Resolved LeftWheel \<and> Name LeftWheel = ''LeftWheel''" by blast
  with h show ?thesis by blast
qed

subsection \<open>A found child that is destroyed\<close>

lemma destroyed_deliver [simp]: "destroyed (deliver e i b) = destroyed b"
  by (cases rule: deliver_cases [of e i b])
     (simp_all add: then_all_def on_found_def reject_all_def)

lemma destroyed_step:
  "destroyed (batch_step e b) =
     (destroyed b \<or> list_ex (\<lambda>c. Connected c \<and> fires e (Signal c)) (destroying b))"
proof -
  have "destroyed (foldl (\<lambda>b' i. deliver e i b') b0 js) = destroyed b0" for b0 js
    by (induction js arbitrary: b0) simp_all
  then show ?thesis by (simp add: batch_step_def)
qed

lemma destroyed_run: "destroyed b \<Longrightarrow> destroyed (batch_run b evs)"
  by (induction evs arbitrary: b) (simp_all add: destroyed_step)

lemma batch_destroyed_never_resolves:
  assumes "batch_ok b" and "destroyed b"
  shows "result b \<noteq> Resolved cs"
    and "list_all is_resolved (all b) \<Longrightarrow> result b = Rejected Destroyed"
proof -
  from assms show "result b \<noteq> Resolved cs" by (auto simp: batch_ok_def)
  assume r: "list_all is_resolved (all b)"
  show "result b = Rejected Destroyed"
  proof (cases "result b")
    case Started
    with assms(1) r show ?thesis by (simp add: batch_ok_def)
  next
    case (Resolved ds)
    with assms show ?thesis by (auto simp: batch_ok_def)
  next
    case (Rejected err)
    with assms(1) have "err = Destroyed \<or> (\<exists>p\<in>set (all b). status p = Rejected err)"
      by (auto simp: batch_ok_def)
    with r Rejected show ?thesis by (auto simp: list_all_iff is_resolved_iff)
  next
    case Cancelled
    with assms(1) show ?thesis by (simp add: batch_ok_def)
  qed
qed

text \<open>
  C2. Take \<^verbatim>\<open>waitForChildren\<close> at any moment at which its promise is still pending and
  the \<open>i\<close>-th child wait has been resolved with \<open>child\<close>. If \<open>child\<close> is destroyed at that
  moment, \<open>destroyed\<close> is set, and whatever happens afterwards the promise is never
  resolved; whenever every child wait has succeeded, it is rejected with
  \<^verbatim>\<open>WaitForError.Destroyed\<close>.
\<close>

theorem destroyed_child_fails_batch:
  assumes "b = batch_run (waitForChildren parent names recursive tmo) evs"
    and "result b = Started" and "i < length (all b)" and "status (all b ! i) = Resolved child"
  shows "destroyed (batch_step (OnDestroying (uid child)) b) \<and>
    (\<forall>cs. result (batch_run (batch_step (OnDestroying (uid child)) b) evs') \<noteq> Resolved cs) \<and>
    (list_all is_resolved (all (batch_run (batch_step (OnDestroying (uid child)) b) evs')) \<longrightarrow>
       result (batch_run (batch_step (OnDestroying (uid child)) b) evs') = Rejected Destroyed)"
proof -
  let ?b' = "batch_step (OnDestroying (uid child)) b"
  have ok: "batch_ok b" unfolding assms(1) by (intro batch_ok_run batch_ok_waitForChildren)
  from assms(3) have "all b ! i \<in> set (all b)" by simp
  with ok assms(2,4) have "Connect (Destroying (uid child)) \<in> set (destroying b)"
    by (auto simp: batch_ok_def)
  then have "list_ex (\<lambda>c. Connected c \<and> fires (OnDestroying (uid child)) (Signal c)) (destroying b)"
    by (auto simp: list_ex_iff Connect_def intro!: bexI [of _ "Connect (Destroying (uid child))"])
  then have d: "destroyed ?b'" by (simp add: destroyed_step)
  then have d': "destroyed (batch_run ?b' evs')" by (rule destroyed_run)
  have ok': "batch_ok (batch_run ?b' evs')" by (intro batch_ok_run batch_ok_step ok)
  from d batch_destroyed_never_resolves [OF ok' d'] show ?thesis by blast
qed

theorem destroyed_child_fails_batch_witness:
  "result (waitForChildren vehicle [''LeftWheel'', ''RightWheel''] None None) = Started \<and>
   status (all (waitForChildren vehicle [''LeftWheel'', ''RightWheel''] None None) ! 0) =
     Resolved LeftWheel \<and>
   list_all is_resolved (all (batch_run (waitForChildren vehicle [''LeftWheel'', ''RightWheel''] None None)
     [OnDestroying (uid LeftWheel), OnChildAdded 1 RightWheel])) \<and>
   result (batch_run (waitForChildren vehicle [''LeftWheel'', ''RightWheel''] None None)
     [OnDestroying (uid LeftWheel), OnChildAdded 1 RightWheel]) = Rejected Destroyed"
proof -
  let ?b = "waitForChildren vehicle [''LeftWheel'', ''RightWheel''] None None"
  have h: "?b = batch_run ?b []" "result ?b = Started" "0 < length (all ?b)"
    "status (all ?b ! 0) = Resolved LeftWheel"
    by (simp_all add: model_defs example_defs)
  have r: "list_all is_resolved (all (batch_run ?b [OnDestroying (uid LeftWheel), OnChildAdded 1 RightWheel]))"
    by (simp add: model_defs example_defs upt_rec)
  from destroyed_child_fails_batch [OF h, of "[OnChildAdded 1 RightWheel]"] r
  have "result (batch_run ?b [OnDestroying (uid LeftWheel), OnChildAdded 1 RightWheel]) = Rejected Destroyed"
    by simp
  with h r show ?thesis by blast
qed

subsection \<open>The watches of a failed batch\<close>

lemma batch_resolved_disconnects:
  assumes "result (batch_run (waitForChildren parent names recursive tmo) evs) = Resolved cs"
  shows "list_all (\<lambda>c. \<not> Connected c)
    (destroying (batch_run (waitForChildren parent names recursive tmo) evs))"
proof -
  have "batch_ok (batch_run (waitForChildren parent names recursive tmo) evs)"
    by (intro batch_ok_run batch_ok_waitForChildren)
  with assms show ?thesis by (simp add: batch_ok_def list_all_iff)
qed

text \<open>
  C3 does not hold of the code: the listeners on the found children's \<^verbatim>\<open>Destroying\<close>
  are disconnected in the callback of \<^verbatim>\<open>Promise.all(all).then\<close> only, which runs when
  every child wait has succeeded (\<open>batch_resolved_disconnects\<close> is that half of the
  claim). The vehicle has its left wheel and never gets its right
  one: after 60 seconds the batch is rejected with the timeout, and after the
  destruction of the vehicle with \<^verbatim>\<open>WaitForError.Destroyed\<close>, and in both cases the
  listener on the left wheel's \<^verbatim>\<open>Destroying\<close> is still connected.
\<close>

theorem batch_failure_leaks_destroy_watch:
  "result (batch_run (waitForChildren vehicle [''LeftWheel'', ''RightWheel''] None None) [OnClock 60]) =
     Rejected TimedOut \<and>
   destroying (batch_run (waitForChildren vehicle [''LeftWheel'', ''RightWheel''] None None) [OnClock 60]) =
     [\<lparr>Signal = Destroying 2, Connected = True\<rparr>] \<and>
   result (batch_run (waitForChildren vehicle [''LeftWheel'', ''RightWheel''] None None) [OnDestroying 1]) =
     Rejected Destroyed \<and>
   destroying (batch_run (waitForChildren vehicle [''LeftWheel'', ''RightWheel''] None None) [OnDestroying 1]) =
     [\<lparr>Signal = Destroying 2, Connected = True\<rparr>]"
  by (simp add: model_defs example_defs upt_rec)

section \<open>A candidate that is already there\<close>

text \<open>
  C1, as the code has it. Each of the six waits for one candidate (\<^verbatim>\<open>waitForChild\<close>,
  \<^verbatim>\<open>waitForChildWhichIsA\<close>, \<^verbatim>\<open>waitForChildOfClass\<close>, \<^verbatim>\<open>waitForPrimaryPart\<close>,
  \<^verbatim>\<open>waitForObjectValue\<close>, \<^verbatim>\<open>waitForCustom\<close>) returns, when its first check finds the
  candidate, a promise already resolved with that candidate, and connects to nothing:
  no signal, no \<^verbatim>\<open>Destroying\<close>, no timer. \<^verbatim>\<open>waitForChildren\<close>, when every name is found
  by the first check, returns a promise already resolved with the children found, in
  the order of the names, and none of its child waits connects to anything; but it has
  connected one listener to the \<^verbatim>\<open>Destroying\<close> of each child found, and disconnected
  each of them before it returns.
\<close>

theorem immediate_resolution:
  "(FindFirstChild parent childName (or_default False recursive) = Some child \<longrightarrow>
      status (waitForChild parent childName recursive tmo) = Resolved child \<and>
      subscriptions (waitForChild parent childName recursive tmo) = []) \<and>
   (FindFirstChildWhichIsA parent className (or_default False recursive) = Some child \<longrightarrow>
      status (waitForChildWhichIsA parent className recursive tmo) = Resolved child \<and>
      subscriptions (waitForChildWhichIsA parent className recursive tmo) = []) \<and>
   (FindFirstChildOfClass parent className = Some child \<longrightarrow>
      status (waitForChildOfClass parent className tmo) = Resolved child \<and>
      subscriptions (waitForChildOfClass parent className tmo) = []) \<and>
   (PrimaryPart model = Some part \<longrightarrow>
      status (waitForPrimaryPart model tmo) = Resolved part \<and>
      subscriptions (waitForPrimaryPart model tmo) = []) \<and>
   (Value objectValue = Some v \<longrightarrow>
      status (waitForObjectValue objectValue tmo) = Resolved v \<and>
      subscriptions (waitForObjectValue objectValue tmo) = []) \<and>
   (pred 0 = Returns (Some x) \<longrightarrow>
      waitForCustom pred tmo = Inr \<lparr>promise = Resolved x, hb = None, delay = None, calls = 1\<rparr>) \<and>
   (map (\<lambda>n. FindFirstChild parent n (or_default False recursive)) names = map Some found \<longrightarrow>
      result (waitForChildren parent names recursive tmo) = Resolved found \<and>
      list_all (\<lambda>p. subscriptions p = []) (all (waitForChildren parent names recursive tmo)) \<and>
      destroying (waitForChildren parent names recursive tmo) =
        map (\<lambda>c. \<lparr>Signal = Destroying (uid c), Connected = False\<rparr>) found)"
  by (simp add: waitForChild_def waitForChildWhichIsA_def waitForChildOfClass_def
      waitForPrimaryPart_def waitForObjectValue_def waitForCustom_def waitForChildren_found
      list_all_iff Disconnect_def Connect_def or_default_def)

theorem immediate_resolution_witness:
  "FindFirstChild vehicle ''LeftWheel'' (or_default False None) = Some LeftWheel \<and>
   status (waitForChild vehicle ''LeftWheel'' None None) = Resolved LeftWheel \<and>
   subscriptions (waitForChild vehicle ''LeftWheel'' None None) = [] \<and>
   FindFirstChildWhichIsA vehicle ''Part'' (or_default False None) = Some LeftWheel \<and>
   subscriptions (waitForChildWhichIsA vehicle ''Part'' None None) = [] \<and>
   FindFirstChildOfClass vehicle ''Part'' = Some LeftWheel \<and>
   subscriptions (waitForChildOfClass vehicle ''Part'' None) = [] \<and>
   PrimaryPart vehicle = Some LeftWheel \<and>
   subscriptions (waitForPrimaryPart vehicle None) = [] \<and>
   Value target = Some LeftWheel \<and>
   subscriptions (waitForObjectValue target None) = [] \<and>
   present 0 = Returns (Some LeftWheel) \<and>
   waitForCustom present None =
     Inr \<lparr>promise = Resolved LeftWheel, hb = None, delay = None, calls = 1\<rparr> \<and>
   map (\<lambda>n. FindFirstChild vehicle n (or_default False None)) [''LeftWheel''] = map Some [LeftWheel] \<and>
   result (waitForChildren vehicle [''LeftWheel''] None None) = Resolved [LeftWheel] \<and>
   list_all (\<lambda>p. subscriptions p = []) (all (waitForChildren vehicle [''LeftWheel''] None None))"
proof -
  have h: "FindFirstChild vehicle ''LeftWheel'' (or_default False None) = Some LeftWheel"
    "FindFirstChildWhichIsA vehicle ''Part'' (or_default False None) = Some LeftWheel"
    "FindFirstChildOfClass vehicle ''Part'' = Some LeftWheel"
    "PrimaryPart vehicle = Some LeftWheel"
    "Value target = Some LeftWheel"
    "present 0 = Returns (Some LeftWheel)"
    "map (\<lambda>n. FindFirstChild vehicle n (or_default False None)) [''LeftWheel''] = map Some [LeftWheel]"
    by (simp_all add: FindFirstChild_def FindFirstChildWhichIsA_def FindFirstChildOfClass_def IsA_def
        or_default_def example_defs)
  from h immediate_resolution [where parent = vehicle and childName = "''LeftWheel''"
      and recursive = None and child = LeftWheel and tmo = None and className = "''Part''"
      and model = vehicle and part = LeftWheel and objectValue = target and v = LeftWheel
      and pred = present and x = LeftWheel and names = "[''LeftWheel'']"
      and found = "[LeftWheel]"]
  show ?thesis by blast
qed

text \<open>
  C1 as stated, "for every wait operation ... no subscription of any kind is ever
  registered", fails for \<^verbatim>\<open>waitForChildren\<close>: the vehicle has its left wheel, the batch
  wait for that one name resolves at once, and it has connected to the wheel's
  \<^verbatim>\<open>Destroying\<close>.
\<close>

theorem batch_registers_destroy_watches:
  "FindFirstChild vehicle ''LeftWheel'' False = Some LeftWheel \<and>
   result (waitForChildren vehicle [''LeftWheel''] None None) = Resolved [LeftWheel] \<and>
   destroying (waitForChildren vehicle [''LeftWheel''] None None) =
     [\<lparr>Signal = Destroying 2, Connected = False\<rparr>] \<and>
   destroying (waitForChildren vehicle [''LeftWheel''] None None) \<noteq> []"
  by (simp add: model_defs example_defs)

section \<open>The signal of waitForChildWhichIsA\<close>

lemma whichIsA_pending:
  "FindFirstChildWhichIsA parent className (or_default False recursive) = None \<Longrightarrow>
   waitForChildWhichIsA parent className recursive tmo =
     \<lparr>status = Started, connection = Some (Connect (ChildAdded (uid parent))),
      predicate = (\<lambda>e. case added e of None \<Rightarrow> None
                        | Some c \<Rightarrow> if IsA c className then Some c else None),
      watch = Some (Connect (Destroying (uid parent))),
      timer = Some (Connect (Delay (or_default DEFAULT_TIMEOUT tmo)))\<rparr>"
  by (simp add: waitForChildWhichIsA_def pending_promise)

text \<open>
  C10. When its first check finds nothing, \<^verbatim>\<open>waitForChildWhichIsA\<close> connects to the
  parent's \<^verbatim>\<open>ChildAdded\<close>, also when \<open>recursive\<close> is true. \<^verbatim>\<open>DescendantAdded\<close> of the
  parent and \<^verbatim>\<open>ChildAdded\<close> of any other instance leave the promise as it is, and no
  sequence of events resolves it unless it holds a \<^verbatim>\<open>ChildAdded\<close> of the parent itself
  with a child of the class. The first check with \<open>recursive\<close> true does search the
  descendants: if one of them is of the class, the promise is resolved at once with a
  descendant of the class.
\<close>

theorem whichIsA_ignores_descendants:
  "(FindFirstChildWhichIsA parent className (or_default False recursive) = None \<longrightarrow>
      connection (waitForChildWhichIsA parent className recursive tmo) =
        Some \<lparr>Signal = ChildAdded (uid parent), Connected = True\<rparr> \<and>
      step (OnDescendantAdded (uid parent) c) (waitForChildWhichIsA parent className recursive tmo) =
        waitForChildWhichIsA parent className recursive tmo \<and>
      (q \<noteq> uid parent \<longrightarrow>
         step (OnChildAdded q c) (waitForChildWhichIsA parent className recursive tmo) =
           waitForChildWhichIsA parent className recursive tmo) \<and>
      (list_all (\<lambda>e. case e of OnChildAdded u d \<Rightarrow> u = uid parent \<longrightarrow> \<not> IsA d className | _ \<Rightarrow> True) evs \<longrightarrow>
         \<not> is_resolved (run (waitForChildWhichIsA parent className recursive tmo) evs))) \<and>
   (d \<in> set (GetDescendants parent) \<and> IsA d className \<longrightarrow>
      (\<exists>c'. c' \<in> set (GetDescendants parent) \<and> IsA c' className \<and>
         status (waitForChildWhichIsA parent className (Some True) tmo) = Resolved c'))"
proof (intro conjI impI)
  assume none: "FindFirstChildWhichIsA parent className (or_default False recursive) = None"
  note p = whichIsA_pending [OF none, of tmo]
  show "connection (waitForChildWhichIsA parent className recursive tmo) =
        Some \<lparr>Signal = ChildAdded (uid parent), Connected = True\<rparr>"
    by (simp add: p Connect_def)
  show "step (OnDescendantAdded (uid parent) c) (waitForChildWhichIsA parent className recursive tmo) =
        waitForChildWhichIsA parent className recursive tmo"
    by (simp add: p step_def listening_def Connect_def)
  show "step (OnChildAdded q c) (waitForChildWhichIsA parent className recursive tmo) =
        waitForChildWhichIsA parent className recursive tmo" if "q \<noteq> uid parent"
    using that by (simp add: p step_def listening_def Connect_def)
  show "\<not> is_resolved (run (waitForChildWhichIsA parent className recursive tmo) evs)"
    if evs: "list_all (\<lambda>e. case e of OnChildAdded u d \<Rightarrow> u = uid parent \<longrightarrow> \<not> IsA d className | _ \<Rightarrow> True) evs"
  proof
    assume "is_resolved (run (waitForChildWhichIsA parent className recursive tmo) evs)"
    then obtain v where "status (run (waitForChildWhichIsA parent className recursive tmo) evs) = Resolved v"
      by (auto simp: is_resolved_def split: status.splits)
    from run_Resolved [OF this] obtain e where e: "e \<in> set evs"
      and l: "listening e (connection (waitForChildWhichIsA parent className recursive tmo))"
      and pr: "predicate (waitForChildWhichIsA parent className recursive tmo) e = Some v"
      by (auto simp: p)
    from l have "fires e (ChildAdded (uid parent))"
      by (simp add: p listening_def Connect_def)
    then obtain k where k: "e = OnChildAdded (uid parent) k" by (auto dest: fires_ChildAdded)
    with pr have "IsA k className" by (simp add: p split: if_splits)
    moreover from evs e k have "\<not> IsA k className" by (auto simp: list_all_iff)
    ultimately show False by simp
  qed
next
  assume d: "d \<in> set (GetDescendants parent) \<and> IsA d className"
  then have "find (\<lambda>c. IsA c className) (GetDescendants parent) \<noteq> None"
    by (auto simp: find_None_iff)
  then obtain c' where f: "find (\<lambda>c. IsA c className) (GetDescendants parent) = Some c'" by auto
  then have "c' \<in> set (GetDescendants parent) \<and> IsA c' className"
    by (auto simp: find_Some_iff)
  moreover from f have "status (waitForChildWhichIsA parent className (Some True) tmo) = Resolved c'"
    by (simp add: waitForChildWhichIsA_def FindFirstChildWhichIsA_def or_default_def Promise_resolve_def)
  ultimately show "\<exists>c'. c' \<in> set (GetDescendants parent) \<and> IsA c' className \<and>
         status (waitForChildWhichIsA parent className (Some True) tmo) = Resolved c'" by blast
qed

theorem whichIsA_ignores_descendants_witness:
  "FindFirstChildWhichIsA yard ''BasePart'' (or_default False (Some True)) = None \<and>
   6 \<noteq> uid yard \<and>
   connection (waitForChildWhichIsA yard ''BasePart'' (Some True) None) =
     Some \<lparr>Signal = ChildAdded (uid yard), Connected = True\<rparr> \<and>
   step (OnDescendantAdded (uid yard) LeftWheel) (waitForChildWhichIsA yard ''BasePart'' (Some True) None) =
     waitForChildWhichIsA yard ''BasePart'' (Some True) None \<and>
   step (OnChildAdded 6 LeftWheel) (waitForChildWhichIsA yard ''BasePart'' (Some True) None) =
     waitForChildWhichIsA yard ''BasePart'' (Some True) None \<and>
   \<not> is_resolved (run (waitForChildWhichIsA yard ''BasePart'' (Some True) None)
     [OnChildAdded 6 LeftWheel, OnDescendantAdded 7 LeftWheel]) \<and>
   LeftWheel \<in> set (GetDescendants garage) \<and> IsA LeftWheel ''BasePart'' \<and>
   (\<exists>c'. c' \<in> set (GetDescendants garage) \<and> IsA c' ''BasePart'' \<and>
      status (waitForChildWhichIsA garage ''BasePart'' (Some True) None) = Resolved c')"
proof -
  have h: "FindFirstChildWhichIsA yard ''BasePart'' (or_default False (Some True)) = None"
    "6 \<noteq> uid yard"
    "list_all (\<lambda>e. case e of OnChildAdded u d \<Rightarrow> u = uid yard \<longrightarrow> \<not> IsA d ''BasePart'' | _ \<Rightarrow> True)
       [OnChildAdded 6 LeftWheel, OnDescendantAdded 7 LeftWheel]"
    "LeftWheel \<in> set (GetDescendants garage) \<and> IsA LeftWheel ''BasePart''"
    by (simp_all add: FindFirstChildWhichIsA_def IsA_def or_default_def example_defs)
  from h whichIsA_ignores_descendants [where parent = yard and className = "''BasePart''"
      and recursive = "Some True" and tmo = None and c = LeftWheel and q = 6
      and evs = "[OnChildAdded 6 LeftWheel, OnDescendantAdded 7 LeftWheel]"]
  have a: "connection (waitForChildWhichIsA yard ''BasePart'' (Some True) None) =
     Some \<lparr>Signal = ChildAdded (uid yard), Connected = True\<rparr>"
    "step (OnDescendantAdded (uid yard) LeftWheel) (waitForChildWhichIsA yard ''BasePart'' (Some True) None) =
     waitForChildWhichIsA yard ''BasePart'' (Some True) None"
    "step (OnChildAdded 6 LeftWheel) (waitForChildWhichIsA yard ''BasePart'' (Some True) None) =
     waitForChildWhichIsA yard ''BasePart'' (Some True) None"
    "\<not> is_resolved (run (waitForChildWhichIsA yard ''BasePart'' (Some True) None)
     [OnChildAdded 6 LeftWheel, OnDescendantAdded 7 LeftWheel])"
    by blast+
  from h whichIsA_ignores_descendants [where parent = garage and className = "''BasePart''"
      and d = LeftWheel and tmo = None]
  have b: "\<exists>c'. c' \<in> set (GetDescendants garage) \<and> IsA c' ''BasePart'' \<and>
      status (waitForChildWhichIsA garage ''BasePart'' (Some True) None) = Resolved c'" by blast
  from h a b show ?thesis by blast
qed

section \<open>Timeouts\<close>

lemma armed_deliver:
  assumes "list_all (armed T) (all b)"
  shows "list_all (armed T) (all (deliver e i b))"
proof -
  have upd: "list_all (armed T) ((all b)[i := step e (all b ! i)])" if "i < length (all b)"
  proof -
    from assms that have "armed T (all b ! i)" by (simp add: list_all_length)
    then have "armed T (step e (all b ! i))" by (rule armed_step)
    with assms show ?thesis by (rule list_all_update)
  qed
  have "list_all (armed T) (map cancel ps)" if "list_all (armed T) ps" for ps
    using that by (simp add: list_all_iff armed_cancel)
  with upd assms all_deliver_cases [of e i b] show ?thesis by auto
qed

lemma result_then_all:
  "result (then_all b) = r \<Longrightarrow> r = result b \<or> r = Rejected Destroyed \<or> (\<exists>cs. r = Resolved cs)"
  by (auto simp: then_all_def split: if_splits)

lemma result_deliver:
  assumes "result (deliver e i b) = Rejected err"
  shows "result b = Rejected err \<or> err = Destroyed \<or>
    (err = TimedOut \<and> i < length (all b) \<and> status (all b ! i) = Started \<and>
     status (step e (all b ! i)) = Rejected TimedOut)"
proof (cases rule: deliver_cases [of e i b])
  case same
  with assms show ?thesis by simp
next
  case (found c)
  with assms result_then_all [of "on_found c (b\<lparr>all := (all b)[i := step e (all b ! i)]\<rparr>)" "Rejected err"]
  show ?thesis by (auto simp: on_found_def)
next
  case (failed err')
  with assms show ?thesis by (auto simp: reject_all_def split: if_splits)
qed

lemma deliver_TimedOut:
  assumes "list_all (armed T) (all b)" and "result (deliver e i b) = Rejected TimedOut"
  shows "result b = Rejected TimedOut \<or> (\<exists>t. e = OnClock t \<and> T \<le> t)"
proof -
  from result_deliver [OF assms(2)]
  consider "result b = Rejected TimedOut"
    | "i < length (all b)" "status (all b ! i) = Started" "status (step e (all b ! i)) = Rejected TimedOut"
    by auto
  then show ?thesis
  proof cases
    case 1
    then show ?thesis by simp
  next
    case 2
    from assms(1) 2(1) have "armed T (all b ! i)" by (simp add: list_all_length)
    with 2(2) have "map_option Signal (timer (all b ! i)) = Some (Delay T)"
      by (simp add: armed_def Connect_def)
    from step_TimedOut [OF _ 2(3) this] 2(2) show ?thesis by simp
  qed
qed

lemma batch_step_TimedOut:
  assumes "list_all (armed T) (all b)"
  shows "list_all (armed T) (all (batch_step e b)) \<and>
    (result (batch_step e b) = Rejected TimedOut \<longrightarrow>
       result b = Rejected TimedOut \<or> (\<exists>t. e = OnClock t \<and> T \<le> t))"
  unfolding batch_step_def
  by (rule foldl_deliver_induct [where P = "\<lambda>b'. list_all (armed T) (all b') \<and>
        (result b' = Rejected TimedOut \<longrightarrow> result b = Rejected TimedOut \<or> (\<exists>t. e = OnClock t \<and> T \<le> t))"])
     (use assms in \<open>auto simp: armed_deliver dest: deliver_TimedOut\<close>)

lemma batch_run_TimedOut:
  assumes "list_all (armed T) (all b)" and "result (batch_run b evs) = Rejected TimedOut"
    and "result b \<noteq> Rejected TimedOut"
  shows "\<exists>t. OnClock t \<in> set evs \<and> T \<le> t"
  using assms
proof (induction evs arbitrary: b)
  case Nil
  then show ?case by simp
next
  case (Cons e evs)
  note s = batch_step_TimedOut [OF Cons.prems(1), of e]
  show ?case
  proof (cases "result (batch_step e b) = Rejected TimedOut")
    case True
    with s Cons.prems(3) show ?thesis by auto
  next
    case False
    from Cons.IH [OF _ _ False] s Cons.prems(2) show ?thesis by auto
  qed
qed

lemma armed_waitForChildren:
  "list_all (armed (or_default DEFAULT_TIMEOUT tmo)) (all (waitForChildren parent names recursive tmo))"
  by (simp add: all_waitForChildren list_all_iff armed_waits)

lemma result_waitForChildren: "result (waitForChildren parent names recursive tmo) \<noteq> Rejected err"
proof -
  have "result (push_all parent recursive tmo names b) = result b" for b
    by (induction names arbitrary: b) (simp_all add: Let_def on_found_def split: status.splits)
  moreover have "destroyed (push_all parent recursive tmo names b) = destroyed b" for b
    by (induction names arbitrary: b) (simp_all add: Let_def on_found_def split: status.splits)
  ultimately show ?thesis by (simp add: waitForChildren_def then_all_def)
qed

lemma deliver_decided:
  assumes "batch_ok b" and "result b \<noteq> Started"
  shows "deliver e i b = b"
proof (cases "i < length (all b) \<and> status (all b ! i) = Started")
  case True
  then have "all b ! i \<in> set (all b)" by simp
  with assms True show ?thesis by (blast dest: batch_ok_pending)
next
  case False
  then show ?thesis by (auto simp: deliver_def)
qed

lemma foldl_deliver_decided:
  "batch_ok b \<Longrightarrow> result b \<noteq> Started \<Longrightarrow> foldl (\<lambda>b' i. deliver e i b') b js = b"
  by (induction js) (simp_all add: deliver_decided)

lemma deliver_clock:
  assumes "batch_ok b" and "list_all (armed T) (all b)" and "T \<le> t"
    and "i < length (all b)" and "status (all b ! i) = Started"
  shows "result (deliver (OnClock t) i b) = Rejected TimedOut \<and> batch_ok (deliver (OnClock t) i b)"
proof -
  from assms(2,4) have "armed T (all b ! i)" by (simp add: list_all_length)
  from armed_clock [OF this assms(5,3)]
  have st: "status (step (OnClock t) (all b ! i)) = Rejected TimedOut" by simp
  from assms(4,5) have "all b ! i \<in> set (all b)" by simp
  with assms(1,5) have "result b = Started" by (blast dest: batch_ok_pending)
  with st assms(4,5) have "result (deliver (OnClock t) i b) = Rejected TimedOut"
    by (simp add: deliver_def Let_def reject_all_def)
  with assms(1) show ?thesis by (simp add: batch_ok_deliver)
qed

lemma foldl_deliver_clock:
  assumes "batch_ok b" and "list_all (armed T) (all b)" and "T \<le> t"
    and "\<exists>i\<in>set js. i < length (all b) \<and> status (all b ! i) = Started"
  shows "result (foldl (\<lambda>b' i. deliver (OnClock t) i b') b js) = Rejected TimedOut"
  using assms
proof (induction js arbitrary: b)
  case Nil
  then show ?case by simp
next
  case (Cons j js)
  show ?case
  proof (cases "j < length (all b) \<and> status (all b ! j) = Started")
    case True
    with deliver_clock [OF Cons.prems(1,2,3), of j]
    have r: "result (deliver (OnClock t) j b) = Rejected TimedOut"
      and ok: "batch_ok (deliver (OnClock t) j b)" by simp_all
    from r have "result (deliver (OnClock t) j b) \<noteq> Started" by simp
    from foldl_deliver_decided [OF ok this] r show ?thesis by simp
  next
    case False
    then have same: "deliver (OnClock t) j b = b" by (auto simp: deliver_def)
    from False Cons.prems(4) have "\<exists>i\<in>set js. i < length (all b) \<and> status (all b ! i) = Started"
      by auto
    from Cons.IH [OF Cons.prems(1,2,3) this] same show ?thesis by simp
  qed
qed

lemma batch_step_clock:
  assumes "batch_ok b" and "list_all (armed T) (all b)" and "T \<le> t" and "result b = Started"
  shows "result (batch_step (OnClock t) b) = Rejected TimedOut"
proof -
  let ?b = "b\<lparr>destroyed := destroyed b \<or>
      list_ex (\<lambda>c. Connected c \<and> fires (OnClock t) (Signal c)) (destroying b)\<rparr>"
  from assms(1,4) have "\<not> list_all is_resolved (all b)"
    and each: "\<forall>p\<in>set (all b). status p = Started \<or> is_resolved p" by (simp_all add: batch_ok_def)
  then obtain p where "p \<in> set (all b)" and "status p = Started" by (auto simp: list_all_iff)
  then obtain i where "i < length (all b)" and "status (all b ! i) = Started"
    by (auto simp: in_set_conv_nth)
  then have ex: "\<exists>i\<in>set [0..<length (all b)]. i < length (all ?b) \<and> status (all ?b ! i) = Started"
    by auto
  have ok: "batch_ok ?b" using assms(1) by (rule batch_ok_destroyed)
  from assms(2) have ar: "list_all (armed T) (all ?b)" by simp
  from foldl_deliver_clock [OF ok ar assms(3) ex] show ?thesis by (simp add: batch_step_def)
qed

lemma waitForChild_default:
  "waitForChild parent n recursive None = waitForChild parent n recursive (Some 60)"
  by (simp add: waitForChild_def or_default_def DEFAULT_TIMEOUT_def cong: option.case_cong)

lemma waitForChildren_default:
  "waitForChildren parent names recursive None = waitForChildren parent names recursive (Some 60)"
proof -
  have "push_all parent recursive None names b = push_all parent recursive (Some 60) names b" for b
    by (induction names arbitrary: b) (simp_all add: waitForChild_default)
  then show ?thesis by (simp add: waitForChildren_def)
qed

text \<open>
  C8. Each of the seven operations takes a timeout, and leaving it out is the same as
  passing 60. With the timeout left out, the returned promise is rejected with the
  timeout only if the clock has read 60 seconds or more since the call, and a promise still
  pending when the clock reads 60 seconds or more is rejected with the timeout then.
\<close>

theorem timeout_defaults_to_60:
  "waitForChild parent childName recursive None = waitForChild parent childName recursive (Some 60) \<and>
   waitForChildWhichIsA parent className recursive None =
     waitForChildWhichIsA parent className recursive (Some 60) \<and>
   waitForChildOfClass parent className None = waitForChildOfClass parent className (Some 60) \<and>
   waitForChildren parent names recursive None = waitForChildren parent names recursive (Some 60) \<and>
   waitForPrimaryPart model None = waitForPrimaryPart model (Some 60) \<and>
   waitForObjectValue objectValue None = waitForObjectValue objectValue (Some 60) \<and>
   waitForCustom pred None = waitForCustom pred (Some 60) \<and>
   (\<forall>p\<in>set [waitForChild parent childName recursive None,
              waitForChildWhichIsA parent className recursive None,
              waitForChildOfClass parent className None,
              waitForPrimaryPart model None,
              waitForObjectValue objectValue None].
      (status (run p evs) = Rejected TimedOut \<longrightarrow> (\<exists>t. OnClock t \<in> set evs \<and> 60 \<le> t)) \<and>
      (status (run p evs) = Started \<and> 60 \<le> t \<longrightarrow>
         status (run p (evs @ [OnClock t])) = Rejected TimedOut)) \<and>
   (result (batch_run (waitForChildren parent names recursive None) evs) = Rejected TimedOut \<longrightarrow>
      (\<exists>t. OnClock t \<in> set evs \<and> 60 \<le> t)) \<and>
   (result (batch_run (waitForChildren parent names recursive None) evs) = Started \<and> 60 \<le> t \<longrightarrow>
      result (batch_run (waitForChildren parent names recursive None) (evs @ [OnClock t])) =
        Rejected TimedOut) \<and>
   (waitForCustom pred None = Inr s0 \<longrightarrow>
      (promise (snd (custom_run pred s0 evs)) = Rejected TimedOut \<longrightarrow>
         (\<exists>t. OnClock t \<in> set evs \<and> 60 \<le> t)) \<and>
      (promise (snd (custom_run pred s0 evs)) = Started \<and> 60 \<le> t \<longrightarrow>
         promise (snd (custom_step pred (OnClock t) (snd (custom_run pred s0 evs)))) =
           Rejected TimedOut))"
proof -
  have single: "(status (run p evs) = Rejected TimedOut \<longrightarrow> (\<exists>t. OnClock t \<in> set evs \<and> 60 \<le> t)) \<and>
      (status (run p evs) = Started \<and> 60 \<le> t \<longrightarrow>
         status (run p (evs @ [OnClock t])) = Rejected TimedOut)"
    if "armed 60 p" and "status p \<noteq> Rejected TimedOut" for p :: "Instance promise"
    using that armed_not_TimedOut [of 60 p evs] armed_run_clock [of 60 p evs t] by blast
  have singles: "\<forall>p\<in>set [waitForChild parent childName recursive None,
              waitForChildWhichIsA parent className recursive None,
              waitForChildOfClass parent className None,
              waitForPrimaryPart model None,
              waitForObjectValue objectValue None].
      (status (run p evs) = Rejected TimedOut \<longrightarrow> (\<exists>t. OnClock t \<in> set evs \<and> 60 \<le> t)) \<and>
      (status (run p evs) = Started \<and> 60 \<le> t \<longrightarrow>
         status (run p (evs @ [OnClock t])) = Rejected TimedOut)"
  proof (intro ballI)
    fix p :: "Instance promise"
    assume "p \<in> set [waitForChild parent childName recursive None,
              waitForChildWhichIsA parent className recursive None,
              waitForChildOfClass parent className None,
              waitForPrimaryPart model None,
              waitForObjectValue objectValue None]"
    then have "armed 60 p \<and> status p \<noteq> Rejected TimedOut"
      using armed_waits [where tmo = None, unfolded default_60]
        fresh_waits [where tmo = None and err = TimedOut] by auto
    then show "(status (run p evs) = Rejected TimedOut \<longrightarrow> (\<exists>t. OnClock t \<in> set evs \<and> 60 \<le> t)) \<and>
      (status (run p evs) = Started \<and> 60 \<le> t \<longrightarrow>
         status (run p (evs @ [OnClock t])) = Rejected TimedOut)"
      using single by blast
  qed
  let ?b0 = "waitForChildren parent names recursive None"
  have ar: "list_all (armed 60) (all ?b0)"
    using armed_waitForChildren [of None parent names recursive] by simp
  have b1: "\<exists>t. OnClock t \<in> set evs \<and> 60 \<le> t"
    if "result (batch_run ?b0 evs) = Rejected TimedOut"
    using batch_run_TimedOut [OF ar that] by (simp add: result_waitForChildren)
  have b2: "result (batch_run ?b0 (evs @ [OnClock t])) = Rejected TimedOut"
    if "result (batch_run ?b0 evs) = Started \<and> 60 \<le> t"
  proof -
    have ok: "batch_ok (batch_run ?b0 evs)" by (intro batch_ok_run batch_ok_waitForChildren)
    have ar': "list_all (armed 60) (all (batch_run ?b0 evs))"
      using ar
    proof (induction evs rule: rev_induct)
      case Nil
      then show ?case by simp
    next
      case (snoc e evs)
      then show ?case using batch_step_TimedOut [of 60 "batch_run ?b0 evs" e] by simp
    qed
    from batch_step_clock [OF ok ar'] that show ?thesis by simp
  qed
  have c: "(promise (snd (custom_run pred s0 evs)) = Rejected TimedOut \<longrightarrow>
         (\<exists>t. OnClock t \<in> set evs \<and> 60 \<le> t)) \<and>
      (promise (snd (custom_run pred s0 evs)) = Started \<and> 60 \<le> t \<longrightarrow>
         promise (snd (custom_step pred (OnClock t) (snd (custom_run pred s0 evs)))) =
           Rejected TimedOut)" if "waitForCustom pred None = Inr s0"
    using waitForCustom_TimedOut [OF that, of evs TimedOut] waitForCustom_clock [OF that, of evs t]
    by simp
  have eqs: "waitForChild parent childName recursive None = waitForChild parent childName recursive (Some 60)"
    "waitForChildWhichIsA parent className recursive None =
     waitForChildWhichIsA parent className recursive (Some 60)"
    "waitForChildOfClass parent className None = waitForChildOfClass parent className (Some 60)"
    "waitForPrimaryPart model None = waitForPrimaryPart model (Some 60)"
    "waitForObjectValue objectValue None = waitForObjectValue objectValue (Some 60)"
    "waitForCustom pred None = waitForCustom pred (Some 60)"
    by (simp_all add: waitForChild_def waitForChildWhichIsA_def waitForChildOfClass_def
        waitForPrimaryPart_def waitForObjectValue_def waitForCustom_def or_default_def
        DEFAULT_TIMEOUT_def cong: option.case_cong outcome.case_cong)
  from eqs waitForChildren_default singles b1 b2 c show ?thesis by blast
qed

theorem timeout_defaults_to_60_witness:
  "status (run (waitForChild chassis ''LeftWheel'' None None) [OnClock 30]) = Started \<and>
   status (run (waitForChild chassis ''LeftWheel'' None None) ([OnClock 30] @ [OnClock 60])) =
     Rejected TimedOut \<and>
   status (run (waitForObjectValue slot None) [OnClock 30]) = Started \<and>
   status (run (waitForObjectValue slot None) ([OnClock 30] @ [OnClock 60])) = Rejected TimedOut \<and>
   result (batch_run (waitForChildren chassis [''LeftWheel''] None None) [OnClock 30]) = Started \<and>
   result (batch_run (waitForChildren chassis [''LeftWheel''] None None) ([OnClock 30] @ [OnClock 60])) =
     Rejected TimedOut \<and>
   waitForCustom arriving None = Inr (ticking 1) \<and>
   promise (snd (custom_run arriving (ticking 1) [OnClock 30])) = Started \<and>
   promise (snd (custom_step arriving (OnClock 60) (snd (custom_run arriving (ticking 1) [OnClock 30])))) =
     Rejected TimedOut \<and>
   (\<exists>t. OnClock t \<in> set ([OnClock 30] @ [OnClock 60]) \<and> 60 \<le> t)"
proof -
  have h: "status (run (waitForChild chassis ''LeftWheel'' None None) [OnClock 30]) = Started"
    "status (run (waitForObjectValue slot None) [OnClock 30]) = Started"
    "result (batch_run (waitForChildren chassis [''LeftWheel''] None None) [OnClock 30]) = Started"
    "waitForCustom arriving None = Inr (ticking 1)"
    "promise (snd (custom_run arriving (ticking 1) [OnClock 30])) = Started"
    "(60::real) \<le> 60"
    by (simp_all add: model_defs example_defs upt_rec)
  note t = timeout_defaults_to_60 [where parent = chassis and childName = "''LeftWheel''"
      and recursive = None and className = "''BasePart''" and model = chassis and objectValue = slot
      and names = "[''LeftWheel'']" and pred = arriving and ?s0.0 = "ticking 1"]
  have m: "waitForChild chassis ''LeftWheel'' None None \<in>
      set [waitForChild chassis ''LeftWheel'' None None,
           waitForChildWhichIsA chassis ''BasePart'' None None,
           waitForChildOfClass chassis ''BasePart'' None,
           waitForPrimaryPart chassis None, waitForObjectValue slot None]"
    "waitForObjectValue slot None \<in>
      set [waitForChild chassis ''LeftWheel'' None None,
           waitForChildWhichIsA chassis ''BasePart'' None None,
           waitForChildOfClass chassis ''BasePart'' None,
           waitForPrimaryPart chassis None, waitForObjectValue slot None]"
    by simp_all
  from h m t [where evs = "[OnClock 30]" and t = 60]
  have a: "status (run (waitForChild chassis ''LeftWheel'' None None) ([OnClock 30] @ [OnClock 60])) =
     Rejected TimedOut"
    "status (run (waitForObjectValue slot None) ([OnClock 30] @ [OnClock 60])) = Rejected TimedOut"
    "result (batch_run (waitForChildren chassis [''LeftWheel''] None None) ([OnClock 30] @ [OnClock 60])) =
     Rejected TimedOut"
    "promise (snd (custom_step arriving (OnClock 60) (snd (custom_run arriving (ticking 1) [OnClock 30])))) =
     Rejected TimedOut"
    by blast+
  from a(3) t [where evs = "[OnClock 30] @ [OnClock 60]"]
  have b: "\<exists>t. OnClock t \<in> set ([OnClock 30] @ [OnClock 60]) \<and> 60 \<le> t" by blast
  from h a b show ?thesis by blast
qed

section \<open>Failures\<close>

lemma result_batch_step:
  assumes "result (batch_step e b) = Rejected err"
  shows "result b = Rejected err \<or> err = Destroyed \<or> err = TimedOut"
proof -
  have "result (foldl (\<lambda>b' i. deliver e i b') b0 js) = Rejected err \<longrightarrow>
      result b0 = Rejected err \<or> err = Destroyed \<or> err = TimedOut" for b0 js
    by (rule foldl_deliver_induct [where P = "\<lambda>b'. result b' = Rejected err \<longrightarrow>
        result b0 = Rejected err \<or> err = Destroyed \<or> err = TimedOut"])
       (use result_deliver in \<open>blast+\<close>)
  from this [of _ "[0..<length (all b)]"] assms show ?thesis
    unfolding batch_step_def by fastforce
qed

lemma result_batch_run:
  "result (batch_run b evs) = Rejected err \<Longrightarrow>
   result b = Rejected err \<or> err = Destroyed \<or> err = TimedOut"
proof (induction evs arbitrary: b)
  case Nil
  then show ?case by simp
next
  case (Cons e evs)
  then show ?case using result_batch_step [of e b err] by auto
qed

text \<open>
  C6, as the code has it. Whatever the sequence of events, a promise returned by any of
  the seven operations is rejected only with \<^verbatim>\<open>WaitForError.Destroyed\<close> or with the
  timeout (\<^verbatim>\<open>waitForCustom\<close> only with the timeout). An exception of the predicate of
  \<^verbatim>\<open>waitForCustom\<close> is never caught or wrapped. Thrown by the invocation at the call, it
  leaves \<^verbatim>\<open>waitForCustom\<close> itself and reaches the caller. Thrown by an invocation on a
  Heartbeat, it leaves the Heartbeat listener and goes to the engine that fired the
  signal, not to the caller: the promise is not rejected with it and stays pending, the
  listener stays connected, and the operation ends as it would have without the
  exception, resolved by a later invocation or rejected with the timeout.
\<close>

theorem only_two_failure_kinds:
  "(\<forall>p\<in>set [waitForChild parent childName recursive tmo,
              waitForChildWhichIsA parent className recursive tmo,
              waitForChildOfClass parent className tmo,
              waitForPrimaryPart model tmo,
              waitForObjectValue objectValue tmo].
      status (run p evs) = Rejected err \<longrightarrow> err = Destroyed \<or> err = TimedOut) \<and>
   (result (batch_run (waitForChildren parent names recursive tmo) evs) = Rejected err \<longrightarrow>
      err = Destroyed \<or> err = TimedOut) \<and>
   (waitForCustom pred tmo = Inr s0 \<and> promise (snd (custom_run pred s0 evs)) = Rejected err \<longrightarrow>
      err = TimedOut) \<and>
   (pred 0 = Throws x \<longrightarrow> waitForCustom pred tmo = Inl x) \<and>
   (waitForCustom pred tmo = Inr s0 \<and> s = snd (custom_run pred s0 evs) \<and>
    promise s = Started \<and> pred (calls s) = Throws x \<longrightarrow>
      custom_step pred OnHeartbeat s = (Some x, s\<lparr>calls := Suc (calls s)\<rparr>) \<and>
      promise (snd (custom_step pred OnHeartbeat s)) = Started \<and>
      hb (snd (custom_step pred OnHeartbeat s)) = Some \<lparr>Signal = Heartbeat, Connected = True\<rparr>)"
proof (intro conjI impI)
  show "\<forall>p\<in>set [waitForChild parent childName recursive tmo,
              waitForChildWhichIsA parent className recursive tmo,
              waitForChildOfClass parent className tmo,
              waitForPrimaryPart model tmo,
              waitForObjectValue objectValue tmo].
      status (run p evs) = Rejected err \<longrightarrow> err = Destroyed \<or> err = TimedOut"
    using fresh_waits [where err = err and tmo = tmo] by (auto dest!: run_rejects)
  show "err = Destroyed \<or> err = TimedOut"
    if "result (batch_run (waitForChildren parent names recursive tmo) evs) = Rejected err"
    using result_batch_run [OF that] by (simp add: result_waitForChildren)
  show "err = TimedOut"
    if "waitForCustom pred tmo = Inr s0 \<and> promise (snd (custom_run pred s0 evs)) = Rejected err"
    using that waitForCustom_TimedOut [of pred tmo s0 evs err] by simp
  show "waitForCustom pred tmo = Inl x" if "pred 0 = Throws x"
    using that by (simp add: waitForCustom_def)
  have tick: "custom_step pred OnHeartbeat s = (Some x, s\<lparr>calls := Suc (calls s)\<rparr>) \<and>
      promise s = Started \<and> hb s = Some \<lparr>Signal = Heartbeat, Connected = True\<rparr>"
    if h: "waitForCustom pred tmo = Inr s0 \<and> s = snd (custom_run pred s0 evs) \<and>
      promise s = Started \<and> pred (calls s) = Throws x"
  proof -
    from h waitForCustom_reach [of pred tmo s0 evs]
    have s: "s = polling (or_default DEFAULT_TIMEOUT tmo) (1 + count_list evs OnHeartbeat)" by auto
    have "calls s = 1 + count_list evs OnHeartbeat" by (simp add: s polling_def)
    with h have "pred (1 + count_list evs OnHeartbeat) = Throws x" by simp
    then have eq: "custom_step pred OnHeartbeat s = (Some x, s\<lparr>calls := Suc (calls s)\<rparr>)"
      unfolding s custom_step_tick by (simp add: polling_def)
    have "promise s = Started \<and> hb s = Some \<lparr>Signal = Heartbeat, Connected = True\<rparr>"
      by (simp add: s polling_def Connect_def)
    with eq show ?thesis by blast
  qed
  show "custom_step pred OnHeartbeat s = (Some x, s\<lparr>calls := Suc (calls s)\<rparr>)"
    if "waitForCustom pred tmo = Inr s0 \<and> s = snd (custom_run pred s0 evs) \<and>
      promise s = Started \<and> pred (calls s) = Throws x"
    using tick [OF that] by blast
  show "promise (snd (custom_step pred OnHeartbeat s)) = Started"
    if "waitForCustom pred tmo = Inr s0 \<and> s = snd (custom_run pred s0 evs) \<and>
      promise s = Started \<and> pred (calls s) = Throws x"
    using tick [OF that] by simp
  show "hb (snd (custom_step pred OnHeartbeat s)) = Some \<lparr>Signal = Heartbeat, Connected = True\<rparr>"
    if "waitForCustom pred tmo = Inr s0 \<and> s = snd (custom_run pred s0 evs) \<and>
      promise s = Started \<and> pred (calls s) = Throws x"
    using tick [OF that] by simp
qed

theorem only_two_failure_kinds_witness:
  "status (run (waitForChild chassis ''LeftWheel'' None None) [OnDestroying 6, OnDestroying 8]) =
     Rejected Destroyed \<and>
   status (run (waitForObjectValue slot None) [OnDestroying 6, OnDestroying 8]) = Rejected Destroyed \<and>
   result (batch_run (waitForChildren chassis [''LeftWheel''] None None) [OnDestroying 6, OnDestroying 8]) =
     Rejected Destroyed \<and>
   waitForCustom failing None = Inr (ticking 1) \<and>
   promise (snd (custom_run failing (ticking 1) [OnHeartbeat, OnClock 60])) = Rejected TimedOut \<and>
   throwing 0 = Throws ''not ready'' \<and>
   waitForCustom throwing None = Inl ''not ready'' \<and>
   ticking 1 = snd (custom_run failing (ticking 1) []) \<and>
   failing (calls (ticking 1)) = Throws ''not ready'' \<and>
   custom_step failing OnHeartbeat (ticking 1) =
     (Some ''not ready'', (ticking 1)\<lparr>calls := Suc (calls (ticking 1))\<rparr>) \<and>
   promise (snd (custom_step failing OnHeartbeat (ticking 1))) = Started"
proof -
  have h: "status (run (waitForChild chassis ''LeftWheel'' None None) [OnDestroying 6, OnDestroying 8]) =
      Rejected Destroyed"
    "status (run (waitForObjectValue slot None) [OnDestroying 6, OnDestroying 8]) = Rejected Destroyed"
    "result (batch_run (waitForChildren chassis [''LeftWheel''] None None) [OnDestroying 6, OnDestroying 8]) =
      Rejected Destroyed"
    "waitForCustom failing None = Inr (ticking 1)"
    "promise (snd (custom_run failing (ticking 1) [OnHeartbeat, OnClock 60])) = Rejected TimedOut"
    "throwing 0 = Throws ''not ready''"
    "ticking 1 = snd (custom_run failing (ticking 1) [])"
    "promise (ticking 1) = Started"
    "failing (calls (ticking 1)) = Throws ''not ready''"
    by (simp_all add: model_defs example_defs upt_rec)
  from h only_two_failure_kinds [where pred = throwing and x = "''not ready''" and tmo = None]
  have a: "waitForCustom throwing None = Inl ''not ready''" by blast
  from h only_two_failure_kinds [where pred = failing and x = "''not ready''" and tmo = None
      and ?s0.0 = "ticking 1" and s = "ticking 1" and evs = "[]"]
  have b: "custom_step failing OnHeartbeat (ticking 1) =
     (Some ''not ready'', (ticking 1)\<lparr>calls := Suc (calls (ticking 1))\<rparr>)"
    "promise (snd (custom_step failing OnHeartbeat (ticking 1))) = Started" by blast+
  from h a b show ?thesis by blast
qed

text \<open>
  C6 as stated, "predicate exceptions propagate unwrapped as the predicate's own
  failure", fails for an exception thrown on a Heartbeat: the operation does not fail
  with it. A predicate returns \<^verbatim>\<open>undefined\<close> at the call and throws on the first
  Heartbeat: the exception leaves the listener, the promise is still pending, and after
  60 seconds it is rejected with the timeout. Another one throws on the first Heartbeat
  and finds the wheel on the second: the promise is resolved with the wheel.
\<close>

theorem heartbeat_exception_is_not_a_failure:
  "waitForCustom failing None = Inr (ticking 1) \<and>
   failing 1 = Throws ''not ready'' \<and>
   custom_run failing (ticking 1) [OnHeartbeat] = ([''not ready''], ticking 2) \<and>
   promise (ticking 2) = Started \<and>
   promise (snd (custom_run failing (ticking 1) [OnHeartbeat, OnClock 60])) = Rejected TimedOut \<and>
   waitForCustom recovering None = Inr (ticking 1) \<and>
   recovering 1 = Throws ''not ready'' \<and>
   fst (custom_run recovering (ticking 1) [OnHeartbeat, OnHeartbeat]) = [''not ready''] \<and>
   promise (snd (custom_run recovering (ticking 1) [OnHeartbeat, OnHeartbeat])) = Resolved LeftWheel"
  by (simp add: model_defs example_defs)

section \<open>The exported functions\<close>

text \<open>
  C7 does not hold of the code: the documentation of the repository describes
  \<^verbatim>\<open>waitForAttribute\<close>, and \<^verbatim>\<open>index.ts\<close> neither defines nor exports a function of that
  name.
\<close>

theorem waitForAttribute_not_exported:
  "''waitForAttribute'' \<notin> set exports"
  by (simp add: exports_def)

end
